theory Spec2Isabelle
  imports Complex_Main "HOL-Library.Multiset" "HOL-Library.Product_Lexorder"
begin

section \<open>Data model of \<open>blast_sorter.py\<close>\<close>

text \<open>
  A parsed BLAST table is a list of rows in table order. The columns are the ones of
  \<open>make_raw_df\<close>; the column \<open>origin\<close> of \<open>make_sorted_df\<close> is absent from a raw
  table, which is \<open>None\<close> here. The column \<open>end\<close> is the field \<open>end_pos\<close>.
  E-values are finite floating point numbers, which are compared exactly: they are
  rationals. Row labels (the pandas index) and column dtypes are not modelled.
\<close>

record hit =
  query_id :: string
  hit_id :: string
  e_val :: rat
  query_length :: int
  alignment_length :: int
  start :: int
  end_pos :: int
  origin :: "string option"

type_synonym frame = "hit list"

text \<open>
  The only exception the code can raise on a table with these columns: \<open>int(...)\<close> of an
  index array with more than one element, in \<open>get_coverages\<close>.
\<close>

datatype error = TypeError

section \<open>\<open>get_coverages\<close>\<close>

text \<open>The list comprehension \<open>cov_start <= start <= cov_end\<close> over the coverages.\<close>

definition overlapping :: "(int \<times> int) list \<Rightarrow> int \<Rightarrow> bool list" where
  "overlapping coverages s =
     map (\<lambda>(cov_start, cov_end). cov_start \<le> s \<and> s \<le> cov_end) coverages"

text \<open>\<open>np.where(bs)[0]\<close>: the positions that hold True, ascending.\<close>

definition where_true :: "bool list \<Rightarrow> nat list" where
  "where_true bs = filter (\<lambda>i. bs ! i) [0..<length bs]"

text \<open>
  One iteration of the loop. \<open>int\<close> of the index array succeeds when exactly one earlier
  region overlaps and raises otherwise.
\<close>

definition cov_step :: "(int \<times> int) list \<Rightarrow> int \<times> int \<Rightarrow> error + (int \<times> int) list" where
  "cov_step coverages se =
     (case se of (s, e) \<Rightarrow>
        if list_ex id (overlapping coverages s) then
          (case where_true (overlapping coverages s) of
             [i] \<Rightarrow> (case coverages ! i of
                       (cov_start, cov_end) \<Rightarrow> Inr (coverages[i := (cov_start, max e cov_end)]))
           | _ \<Rightarrow> Inl TypeError)
        else Inr (coverages @ [(s, e)]))"

fun cov_loop :: "(int \<times> int) list \<Rightarrow> (int \<times> int) list \<Rightarrow> error + (int \<times> int) list" where
  "cov_loop coverages [] = Inr coverages"
| "cov_loop coverages (se # rest) =
     (case cov_step coverages se of
        Inl err \<Rightarrow> Inl err
      | Inr coverages' \<Rightarrow> cov_loop coverages' rest)"

definition get_coverages :: "int list \<Rightarrow> int list \<Rightarrow> error + (int \<times> int) list" where
  "get_coverages starts ends =
     (case cov_loop [(1, 1)] (zip starts ends) of
        Inl err \<Rightarrow> Inl err
      | Inr coverages \<Rightarrow>
          Inr (if (1, 1) \<in> set coverages then remove1 (1, 1) coverages else coverages))"

section \<open>\<open>assign_tax\<close>\<close>

definition set_origin :: "string \<Rightarrow> hit \<Rightarrow> hit" where
  "set_origin tag h = h\<lparr>origin := Some tag\<rparr>"

text \<open>
  \<open>sort_values(by='e_val')\<close> and \<open>sort_values(by='start')\<close> sort by one column with the
  library's default algorithm, which is not stable: the result is some rearrangement of
  the rows in ascending order of the key, and the order of rows with equal keys is the
  library's choice. The two sorts are parameters of \<open>assign_tax\<close>, and \<open>sorts_by\<close> is
  all that is known of them.
\<close>

definition sorts_by :: "('a \<Rightarrow> 'k::linorder) \<Rightarrow> ('a list \<Rightarrow> 'a list) \<Rightarrow> bool" where
  "sorts_by key srt = (\<forall>xs. mset (srt xs) = mset xs \<and> sorted (map key (srt xs)))"

text \<open>
  \<open>sort_values(by=['e_val', 'alignment_length'], ascending=[True, False])\<close> sorts by
  several columns, which the library does with a stable sort: it is the stable sort by
  the pair of the e-value and the negated alignment length.
\<close>

definition rank :: "hit \<Rightarrow> rat \<times> int" where
  "rank h = (e_val h, - alignment_length h)"

text \<open>The order of that sort, written out: lower e-value first, then longer alignment.\<close>

definition ranks_before :: "hit \<Rightarrow> hit \<Rightarrow> bool" where
  "ranks_before h h' =
     (e_val h < e_val h' \<or> (e_val h = e_val h' \<and> alignment_length h' \<le> alignment_length h))"

definition inside :: "int \<times> int \<Rightarrow> hit \<Rightarrow> bool" where
  "inside cov h = (case cov of (s, e) \<Rightarrow> s \<le> start h \<and> end_pos h \<le> e)"

text \<open>
  The loop over the coverages in the last part of \<open>assign_tax\<close>: the state is the table
  \<open>df\<close>, which gets the column \<open>origin\<close>, and \<open>out_df\<close>, which grows by \<open>head(1)\<close> of
  the sorted selection, nothing when the selection is empty.
\<close>

fun chimera_loop :: "frame \<Rightarrow> (int \<times> int) list \<Rightarrow> frame \<Rightarrow> frame" where
  "chimera_loop df [] out_df = out_df"
| "chimera_loop df (cov # rest) out_df =
     (let df' = map (set_origin ''chimera'') df;
          hits = sort_key rank (filter (inside cov) df');
          best_hit = take 1 hits
      in chimera_loop df' rest (out_df @ best_hit))"

text \<open>
  \<open>assign_tax\<close> returns a pair: the caller's table as it is after the call, and the
  returned table or the exception. With one row the code writes the column into its
  argument and returns that same table; in every other case it works on the copy that
  \<open>sort_values\<close> returns. \<open>by_e_val\<close> is \<open>sort_values(by='e_val')\<close> and \<open>by_start\<close> is
  \<open>sort_values(by='start')\<close>.
\<close>

definition assign_tax ::
  "(frame \<Rightarrow> frame) \<Rightarrow> (frame \<Rightarrow> frame) \<Rightarrow> frame \<Rightarrow> frame \<times> (error + frame)" where
  "assign_tax by_e_val by_start df =
     (if length df = 1 then
        (map (set_origin ''single'') df, Inr (map (set_origin ''single'') df))
      else
        (df,
         let df1 = by_e_val df in
         case find (\<lambda>hit. query_length hit = alignment_length hit) df1 of
           Some hit \<Rightarrow> Inr [set_origin ''single'' hit]
         | None \<Rightarrow>
           (case find (\<lambda>hit. query_length hit < alignment_length hit) df1 of
              Some hit \<Rightarrow> Inr [set_origin ''single'' hit]
            | None \<Rightarrow>
              (let start_sorted_df = by_start df1 in
               case get_coverages (map start start_sorted_df) (map end_pos start_sorted_df) of
                 Inl err \<Rightarrow> Inl err
               | Inr coverages \<Rightarrow>
                   if length coverages = 1 then
                     Inr (map (set_origin ''single'') (take 1 (sort_key rank df1)))
                   else Inr (chimera_loop df1 coverages [])))))"

abbreviation returned :: "frame \<times> (error + frame) \<Rightarrow> error + frame" where
  "returned r \<equiv> snd r"

abbreviation caller_df :: "frame \<times> (error + frame) \<Rightarrow> frame" where
  "caller_df r \<equiv> fst r"

section \<open>Notions the results are stated with\<close>

text \<open>
  The regions \<open>assign_tax\<close> computes from a table: the spans of the rows, sorted by
  \<open>e_val\<close> and then by \<open>start\<close>, given to \<open>get_coverages\<close>.
\<close>

definition coverages_of ::
  "(frame \<Rightarrow> frame) \<Rightarrow> (frame \<Rightarrow> frame) \<Rightarrow> frame \<Rightarrow> error + (int \<times> int) list" where
  "coverages_of by_e_val by_start df =
     (let start_sorted_df = by_start (by_e_val df)
      in get_coverages (map start start_sorted_df) (map end_pos start_sorted_df))"

text \<open>The coordinates that a list of inclusive spans covers.\<close>

definition covered :: "(int \<times> int) list \<Rightarrow> int set" where
  "covered spans = (\<Union>p\<in>set spans. {fst p..snd p})"

text \<open>
  The first row, in table order, of those that no row of the table ranks strictly before.
\<close>

definition first_best :: "frame \<Rightarrow> hit" where
  "first_best hs = hd (filter (\<lambda>h. \<forall>h'\<in>set hs. ranks_before h h') hs)"

text \<open>A region holds a span of \<open>S\<close>: the span lies within it.\<close>

definition holds_span :: "(int \<times> int) set \<Rightarrow> int \<times> int \<Rightarrow> bool" where
  "holds_span S cov = (\<exists>(s, e)\<in>S. fst cov \<le> s \<and> e \<le> snd cov)"

text \<open>
  The invariant of the loop of \<open>get_coverages\<close>: every region holds a span it has
  read, except for the untouched seed \<open>(1, 1)\<close> at position 0.
\<close>

definition seeded :: "(int \<times> int) set \<Rightarrow> (int \<times> int) list \<Rightarrow> bool" where
  "seeded S acc =
     (acc \<noteq> [] \<and> (\<forall>j<length acc. (j = 0 \<and> acc ! 0 = (1, 1)) \<or> holds_span S (acc ! j)))"

text \<open>What one iteration of the loop over the coverages appends to \<open>out_df\<close>.\<close>

definition region_best :: "frame \<Rightarrow> int \<times> int \<Rightarrow> frame" where
  "region_best df cov =
     take 1 (sort_key rank (filter (inside cov) (map (set_origin ''chimera'') df)))"

text \<open>
  Row \<open>i\<close> of the table is a candidate, no candidate ranks strictly before it, and no
  candidate above it in the table has the same \<open>e_val\<close> and \<open>alignment_length\<close>.
\<close>

definition first_of_best :: "(hit \<Rightarrow> bool) \<Rightarrow> frame \<Rightarrow> nat \<Rightarrow> bool" where
  "first_of_best cand df i =
     (i < length df \<and> cand (df ! i) \<and>
      (\<forall>h'\<in>set df. cand h' \<longrightarrow> ranks_before (df ! i) h') \<and>
      (\<forall>j<i. cand (df ! j) \<longrightarrow>
         \<not> (e_val (df ! j) = e_val (df ! i) \<and>
            alignment_length (df ! j) = alignment_length (df ! i))))"

text \<open>The coordinates of an inclusive span; none when the end lies before the start.\<close>

definition span_range :: "int \<times> int \<Rightarrow> int set" where
  "span_range r = {fst r..snd r}"

text \<open>
  The span \<open>p\<close> starts within the region \<open>r\<close>. The spans are sorted by start, so
  this is how a span chains into a region: it begins inside what the earlier spans of
  the region cover.
\<close>

definition starts_in :: "int \<times> int \<Rightarrow> int \<times> int \<Rightarrow> bool" where
  "starts_in r p = (fst r \<le> fst p \<and> fst p \<le> snd r)"

text \<open>
  Span \<open>k\<close> of the input is the origin of the region \<open>r\<close>: the region starts where
  the span starts and holds it, and every earlier span starts before the region or
  covers nothing.
\<close>

definition is_origin :: "(int \<times> int) list \<Rightarrow> int \<times> int \<Rightarrow> nat \<Rightarrow> bool" where
  "is_origin spans r k =
     (k < length spans \<and> fst (spans ! k) = fst r \<and> snd (spans ! k) \<le> snd r \<and>
      (\<forall>j<k. fst (spans ! j) < fst r \<or> snd (spans ! j) < fst (spans ! j)))"

text \<open>Each region ends before the next one starts.\<close>

definition sep :: "(int \<times> int) list \<Rightarrow> bool" where
  "sep acc = sorted_wrt (\<lambda>a b. snd a < fst b) acc"

text \<open>Every span read so far that covers something lies within a region.\<close>

definition spans_held :: "(int \<times> int) list \<Rightarrow> (int \<times> int) list \<Rightarrow> bool" where
  "spans_held P acc =
     (\<forall>p\<in>set P. snd p < fst p \<or> (\<exists>r\<in>set acc. starts_in r p \<and> snd p \<le> snd r))"

text \<open>
  Every coordinate of a region, the untouched seed apart, is covered by a span read so
  far that starts within the region.
\<close>

definition points_held :: "(int \<times> int) list \<Rightarrow> (int \<times> int) list \<Rightarrow> bool" where
  "points_held P acc =
     (\<forall>r\<in>set acc. r = (1, 1) \<or>
        (\<forall>z\<in>span_range r. \<exists>p\<in>set P. starts_in r p \<and> z \<in> span_range p))"

text \<open>
  The invariant of the loop of \<open>get_coverages\<close> on start-sorted spans with 1-based
  starts: \<open>P\<close> are the spans read, \<open>h\<close> is the region at position 0, which grew from
  the seed, and \<open>t\<close> are the regions after it.
\<close>

definition merged :: "(int \<times> int) list \<Rightarrow> int \<times> int \<Rightarrow> (int \<times> int) list \<Rightarrow> bool" where
  "merged P h t =
     (fst h = 1 \<and> 1 \<le> snd h \<and> sep (h # t) \<and> (\<forall>r\<in>set t. fst r \<in> fst ` set P) \<and>
      spans_held P (h # t) \<and> points_held P (h # t) \<and>
      (h = (1, 1) \<or> is_origin P h 0) \<and>
      (\<exists>os. list_all2 (is_origin P) t os \<and> sorted_wrt (<) os))"

section \<open>Rows as \<open>make_raw_df\<close> builds them\<close>

definition mk_hit :: "string \<Rightarrow> string \<Rightarrow> rat \<Rightarrow> int \<Rightarrow> int \<Rightarrow> int \<Rightarrow> int \<Rightarrow> hit" where
  "mk_hit q h ev ql al s e =
     \<lparr>query_id = q, hit_id = h, e_val = ev, query_length = ql, alignment_length = al,
      start = s, end_pos = e, origin = None\<rparr>"



section \<open>The model on the source's tests\<close>

text \<open>
  The six tests of \<open>assign_tax\<close> in the source file, input and expected table, with
  sorts that keep rows with equal keys in their order, as the tests expect of the
  library on tables of this size.
\<close>

lemma assign_tax_source_tests:
  "returned (assign_tax (sort_key e_val) (sort_key start) [mk_hit ''k1_1'' ''GCF_001'' 0 535 535 1 535])
     = Inr [set_origin ''single'' (mk_hit ''k1_1'' ''GCF_001'' 0 535 535 1 535)]"
  "returned (assign_tax (sort_key e_val) (sort_key start) [mk_hit ''k1_1'' ''GCF_001'' 0 535 535 1 535,
                         mk_hit ''k1_1'' ''GCF_002'' 0 535 535 1 535])
     = Inr [set_origin ''single'' (mk_hit ''k1_1'' ''GCF_001'' 0 535 535 1 535)]"
  "returned (assign_tax (sort_key e_val) (sort_key start) [mk_hit ''k1_1'' ''GCF_001'' (116 / 10 ^ 30) 535 535 1 535,
                         mk_hit ''k1_1'' ''GCF_002'' 0 535 535 1 535])
     = Inr [set_origin ''single'' (mk_hit ''k1_1'' ''GCF_002'' 0 535 535 1 535)]"
  "returned (assign_tax (sort_key e_val) (sort_key start) [mk_hit ''k1_1'' ''GCF_001'' 0 570 417 1 416,
                         mk_hit ''k1_1'' ''GCF_002'' 0 570 571 1 570])
     = Inr [set_origin ''single'' (mk_hit ''k1_1'' ''GCF_002'' 0 570 571 1 570)]"
  "returned (assign_tax (sort_key e_val) (sort_key start) [mk_hit ''k1_1'' ''GCF_001'' 0 570 417 1 416,
                         mk_hit ''k1_1'' ''GCF_002'' 0 570 405 1 404,
                         mk_hit ''k1_1'' ''GCF_003'' (5 / 100) 570 500 1 499])
     = Inr [set_origin ''single'' (mk_hit ''k1_1'' ''GCF_001'' 0 570 417 1 416)]"
  "returned (assign_tax (sort_key e_val) (sort_key start) [mk_hit ''k1_1'' ''GCF_001'' 0 500 200 1 199,
                         mk_hit ''k1_1'' ''GCF_002'' 0 500 200 3 201,
                         mk_hit ''k1_1'' ''GCF_003'' 0 500 200 301 500,
                         mk_hit ''k1_1'' ''GCF_004'' (5 / 100) 500 250 251 500])
     = Inr [set_origin ''chimera'' (mk_hit ''k1_1'' ''GCF_001'' 0 500 200 1 199),
            set_origin ''chimera'' (mk_hit ''k1_1'' ''GCF_003'' 0 500 200 301 500)]"
  by (simp_all add: assign_tax_def mk_hit_def get_coverages_def cov_step_def overlapping_def
        where_true_def upt_rec inside_def set_origin_def rank_def)

section \<open>Auxiliary facts\<close>

lemma find_hd_filter:
  "\<exists>x\<in>set xs. P x \<Longrightarrow> find P xs = Some (hd (filter P xs))"
  by (induction xs) auto

lemma find_none_filter:
  "\<forall>x\<in>set xs. \<not> P x \<Longrightarrow> find P xs = None"
  by (induction xs) auto

lemma rank_le_iff: "rank h \<le> rank h' \<longleftrightarrow> ranks_before h h'"
  by (auto simp add: rank_def ranks_before_def)

lemma take1_sort_key_min:
  fixes f :: "'a \<Rightarrow> 'b::linorder"
  assumes "xs \<noteq> []"
  shows "\<exists>m. take 1 (sort_key f xs) = [m] \<and> m \<in> set xs \<and> (\<forall>x\<in>set xs. f m \<le> f x)"
proof -
  from assms have "sort_key f xs \<noteq> []"
    by (metis length_sort length_0_conv)
  then obtain m ms where ms: "sort_key f xs = m # ms"
    by (cases "sort_key f xs") auto
  have "sorted (map f (m # ms))"
    using sorted_sort_key [of f xs] by (simp add: ms)
  then have "\<forall>x\<in>set (m # ms). f m \<le> f x"
    by auto
  moreover have "set (m # ms) = set xs"
    using set_sort [of f xs] by (simp add: ms)
  ultimately show ?thesis
    using ms by auto
qed

subsection \<open>What a sort by one column gives\<close>

lemma sorts_by_sort_key: "sorts_by f (sort_key f)"
  by (simp add: sorts_by_def)

lemma sorts_by_set [simp]: "sorts_by key srt \<Longrightarrow> set (srt xs) = set xs"
  by (metis sorts_by_def mset_eq_setD)

lemma sorts_by_length [simp]: "sorts_by key srt \<Longrightarrow> length (srt xs) = length xs"
  by (metis sorts_by_def mset_eq_length)

lemma sorts_by_sorted: "sorts_by key srt \<Longrightarrow> sorted (map key (srt xs))"
  by (simp add: sorts_by_def)

lemma sorts_by_Nil [simp]:
  assumes "sorts_by key srt"
  shows "srt [] = []"
proof -
  have "mset (srt []) = mset []"
    using assms unfolding sorts_by_def by blast
  then show ?thesis
    by simp
qed

lemma filter_key_distinct:
  assumes "distinct (map f xs)" and "k \<in> set xs"
  shows "filter (\<lambda>x. f k = f x) xs = [k]"
  using assms
proof (induction xs)
  case Nil
  then show ?case by simp
next
  case (Cons x xs)
  show ?case
  proof (cases "k = x")
    case True
    have "\<forall>y\<in>set xs. f x \<noteq> f y"
      using Cons.prems(1) by auto
    then have "filter (\<lambda>y. f x = f y) xs = []"
      by (simp add: filter_empty_conv)
    then show ?thesis
      using True by simp
  next
    case False
    then have k: "k \<in> set xs"
      using Cons.prems(2) by simp
    then have "f k \<in> f ` set xs"
      by simp
    then have "f k \<noteq> f x"
      using Cons.prems(1) by auto
    then show ?thesis
      using Cons.IH k Cons.prems(1) by simp
  qed
qed

text \<open>Where the keys differ from row to row there is one sorted order only.\<close>

lemma sorted_distinct_keys_unique:
  fixes f :: "'a \<Rightarrow> 'k::linorder"
  assumes "mset ys = mset xs" and "sorted (map f ys)" and "distinct (map f xs)"
  shows "ys = sort_key f xs"
proof -
  have "mset (map f ys) = mset (map f xs)"
    using assms(1) by simp
  then have dy: "distinct (map f ys)"
    using assms(3) by (metis mset_eq_imp_distinct_iff)
  have st: "set ys = set xs"
    using assms(1) by (rule mset_eq_setD)
  have "filter (\<lambda>x. f k = f x) ys = filter (\<lambda>x. f k = f x) xs" if "k \<in> set ys" for k
    using that st filter_key_distinct [OF dy] filter_key_distinct [OF assms(3)] by simp
  then show ?thesis
    using assms(1) assms(2) by (intro properties_for_sort_key [symmetric]) simp_all
qed

lemma sorts_by_distinct_keys:
  fixes f :: "'a \<Rightarrow> 'k::linorder"
  assumes "sorts_by f srt" and "distinct (map f xs)"
  shows "srt xs = sort_key f xs"
  using assms by (intro sorted_distinct_keys_unique) (simp_all add: sorts_by_def)

text \<open>In a sorted table the first row with a property has the least key of such rows.\<close>

lemma sorted_hd_filter_least:
  fixes f :: "'a \<Rightarrow> 'k::linorder"
  assumes "sorted (map f ys)" and "\<exists>y\<in>set ys. P y"
  shows "hd (filter P ys) \<in> set ys \<and> P (hd (filter P ys)) \<and>
      (\<forall>y\<in>set ys. P y \<longrightarrow> f (hd (filter P ys)) \<le> f y)"
proof -
  from assms(2) obtain m ms where ms: "filter P ys = m # ms"
    by (cases "filter P ys") (auto simp add: filter_empty_conv)
  have "sorted (map f (filter P ys))"
    using assms(1) by (rule sorted_filter)
  then have "\<forall>y\<in>set (filter P ys). f m \<le> f y"
    by (auto simp add: ms)
  then have least: "\<forall>y\<in>set ys. P y \<longrightarrow> f m \<le> f y"
    by simp
  have "m \<in> set (filter P ys)"
    by (simp add: ms)
  then have "m \<in> set ys" "P m"
    by simp_all
  then show ?thesis
    using least by (simp add: ms)
qed


subsection \<open>The branches of \<open>assign_tax\<close>\<close>

lemma assign_tax_region_analysis:
  assumes "sorts_by e_val by_e_val"
    and "length df \<noteq> 1"
    and "\<forall>h\<in>set df. alignment_length h < query_length h"
    and "coverages_of by_e_val by_start df = Inr coverages"
  shows "returned (assign_tax by_e_val by_start df) =
      (if length coverages = 1
       then Inr (map (set_origin ''single'') (take 1 (sort_key rank (by_e_val df))))
       else Inr (chimera_loop (by_e_val df) coverages []))"
proof -
  have "find (\<lambda>h. query_length h = alignment_length h) (by_e_val df) = None"
    using assms(1) assms(3) by (intro find_none_filter) auto
  moreover have "find (\<lambda>h. query_length h < alignment_length h) (by_e_val df) = None"
    using assms(1) assms(3) by (intro find_none_filter) auto
  ultimately show ?thesis
    using assms(2) assms(4) by (simp add: assign_tax_def coverages_of_def Let_def)
qed

text \<open>Only a table of one row is written to.\<close>

lemma assign_tax_other_inputs_unchanged:
  "length df \<noteq> 1 \<Longrightarrow> caller_df (assign_tax by_e_val by_start df) = df"
  by (simp add: assign_tax_def)

subsection \<open>The stable sort by several columns\<close>

lemma sort_key_same_key:
  fixes f :: "'a \<Rightarrow> 'b::linorder"
  assumes "\<forall>x\<in>set xs. f x = c"
  shows "sort_key f xs = xs"
proof -
  have "filter (\<lambda>y. f y = c) (sort_key f xs) = filter (\<lambda>y. f y = c) xs"
    by (rule sort_key_stable)
  moreover have "filter (\<lambda>y. f y = c) xs = xs"
    using assms by simp
  moreover have "filter (\<lambda>y. f y = c) (sort_key f xs) = sort_key f xs"
    using assms by simp
  ultimately show ?thesis by simp
qed

lemma hd_sort_key_first:
  fixes f :: "'a \<Rightarrow> 'b::linorder"
  assumes "xs \<noteq> []"
  shows "hd (sort_key f xs) = hd (filter (\<lambda>x. \<forall>y\<in>set xs. f x \<le> f y) xs)"
proof -
  obtain m where m: "take 1 (sort_key f xs) = [m]" "m \<in> set xs" "\<forall>x\<in>set xs. f m \<le> f x"
    using take1_sort_key_min [OF assms, of f] by blast
  then obtain ms where ms: "sort_key f xs = m # ms"
    by (cases "sort_key f xs") auto
  have "filter (\<lambda>y. f y = f m) (sort_key f xs) = filter (\<lambda>y. f y = f m) xs"
    by (rule sort_key_stable)
  then have "m # filter (\<lambda>y. f y = f m) ms = filter (\<lambda>y. f y = f m) xs"
    by (simp add: ms)
  then have "hd (filter (\<lambda>y. f y = f m) xs) = m"
    by (metis list.sel(1))
  moreover have "filter (\<lambda>y. f y = f m) xs = filter (\<lambda>x. \<forall>y\<in>set xs. f x \<le> f y) xs"
  proof (rule filter_cong [OF refl])
    fix x assume "x \<in> set xs"
    then show "(f x = f m) = (\<forall>y\<in>set xs. f x \<le> f y)"
      using m(2) m(3) by (auto intro: antisym)
  qed
  ultimately show ?thesis
    by (simp add: ms)
qed

lemma rank_eq_e_val: "rank x = rank y \<Longrightarrow> e_val x = e_val y"
  by (simp add: rank_def)

lemma best_of_e_sorted:
  assumes "xs \<noteq> []"
  shows "take 1 (sort_key rank (sort_key e_val xs)) = [first_best xs]"
proof -
  let ?P = "\<lambda>x. \<forall>y\<in>set xs. rank x \<le> rank y"
  have ne: "sort_key e_val xs \<noteq> []"
    using assms by (metis length_sort length_0_conv)
  then have ne2: "sort_key rank (sort_key e_val xs) \<noteq> []"
    by (metis length_sort length_0_conv)
  have "hd (sort_key rank (sort_key e_val xs))
      = hd (filter (\<lambda>x. \<forall>y\<in>set (sort_key e_val xs). rank x \<le> rank y) (sort_key e_val xs))"
    by (rule hd_sort_key_first [OF ne])
  also have "\<dots> = hd (filter ?P (sort_key e_val xs))"
    by simp
  also have "filter ?P (sort_key e_val xs) = sort_key e_val (filter ?P xs)"
    by (rule filter_sort)
  also have "sort_key e_val (filter ?P xs) = filter ?P xs"
  proof (cases "filter ?P xs")
    case Nil
    then show ?thesis by simp
  next
    case (Cons a as)
    then have "a \<in> set (filter ?P xs)"
      by simp
    then have a: "a \<in> set xs" "?P a"
      by auto
    have "\<forall>x\<in>set (filter ?P xs). e_val x = e_val a"
    proof
      fix x assume "x \<in> set (filter ?P xs)"
      then have "x \<in> set xs" "?P x" by auto
      with a have "rank x = rank a" by (auto intro: antisym)
      then show "e_val x = e_val a" by (rule rank_eq_e_val)
    qed
    then show ?thesis by (rule sort_key_same_key)
  qed
  finally have "hd (sort_key rank (sort_key e_val xs)) = first_best xs"
    by (simp add: first_best_def rank_le_iff)
  then show ?thesis
    using ne2 by (cases "sort_key rank (sort_key e_val xs)") auto
qed

lemma first_best_props:
  assumes "xs \<noteq> []"
  shows "first_best xs \<in> set xs \<and> (\<forall>h'\<in>set xs. ranks_before (first_best xs) h')"
proof -
  have ne: "sort_key e_val xs \<noteq> []"
    using assms by (metis length_sort length_0_conv)
  obtain m where m: "take 1 (sort_key rank (sort_key e_val xs)) = [m]"
      "m \<in> set (sort_key e_val xs)" "\<forall>x\<in>set (sort_key e_val xs). rank m \<le> rank x"
    using take1_sort_key_min [OF ne, of rank] by blast
  have "m = first_best xs"
    using m(1) best_of_e_sorted [OF assms] by simp
  then show ?thesis
    using m(2) m(3) by (simp add: rank_le_iff)
qed

lemma insort_key_map_commute:
  "(\<And>x. f (g x) = f x) \<Longrightarrow> insort_key f (g x) (map g ys) = map g (insort_key f x ys)"
  by (induction ys) simp_all

lemma sort_key_map_commute:
  "(\<And>x. f (g x) = f x) \<Longrightarrow> sort_key f (map g xs) = map g (sort_key f xs)"
  by (induction xs) (simp_all add: insort_key_map_commute)

lemma filter_map_commute:
  "(\<And>x. P (g x) = P x) \<Longrightarrow> filter P (map g xs) = map g (filter P xs)"
  by (induction xs) simp_all

lemma rank_set_origin [simp]: "rank (set_origin t h) = rank h"
  by (simp add: rank_def set_origin_def)

lemma inside_set_origin [simp]: "inside cov (set_origin t h) = inside cov h"
  by (simp add: inside_def set_origin_def split: prod.splits)

lemma set_origin_idem [simp]: "set_origin t (set_origin t h) = set_origin t h"
  by (simp add: set_origin_def)

lemma chimera_loop_concat:
  "chimera_loop df covs out = out @ concat (map (region_best df) covs)"
proof (induction covs arbitrary: df out)
  case Nil
  then show ?case by simp
next
  case (Cons cov covs)
  have "region_best (map (set_origin ''chimera'') df) = region_best df"
    by (rule ext) (simp add: region_best_def o_def)
  then show ?case
    by (simp add: Cons.IH Let_def) (simp add: region_best_def)
qed

lemma take1_first_best:
  assumes "xs \<noteq> []"
  shows "take 1 (sort_key rank xs) = [first_best xs]"
proof -
  have ne: "sort_key rank xs \<noteq> []"
    using assms by (metis length_sort length_0_conv)
  have "hd (sort_key rank xs) = first_best xs"
    using hd_sort_key_first [OF assms, of rank] by (simp add: first_best_def rank_le_iff)
  then show ?thesis
    using ne by (cases "sort_key rank xs") auto
qed

lemma first_best_stable:
  assumes "xs \<noteq> []"
  shows "first_best (sort_key e_val xs) = first_best xs"
proof -
  have "sort_key e_val xs \<noteq> []"
    using assms by (metis length_sort length_0_conv)
  then have "take 1 (sort_key rank (sort_key e_val xs)) = [first_best (sort_key e_val xs)]"
    by (rule take1_first_best)
  then show ?thesis
    using best_of_e_sorted [OF assms] by simp
qed

lemma region_best_first:
  assumes "filter (inside cov) df \<noteq> []"
  shows "region_best df cov = [set_origin ''chimera'' (first_best (filter (inside cov) df))]"
proof -
  let ?t = "set_origin ''chimera''"
  have "region_best df cov = take 1 (sort_key rank (map ?t (filter (inside cov) df)))"
    by (simp add: region_best_def filter_map_commute)
  also have "\<dots> = map ?t (take 1 (sort_key rank (filter (inside cov) df)))"
    by (simp add: sort_key_map_commute take_map)
  also have "take 1 (sort_key rank (filter (inside cov) df))
      = [first_best (filter (inside cov) df)]"
    by (rule take1_first_best [OF assms])
  finally show ?thesis by simp
qed

subsection \<open>Every returned region holds a span\<close>

lemma where_true_single:
  assumes "where_true bs = [i]"
  shows "i < length bs \<and> bs ! i"
proof -
  have "i \<in> set (where_true bs)"
    using assms by simp
  then show ?thesis
    by (simp add: where_true_def)
qed

lemma cov_step_cases:
  assumes "cov_step acc (s, e) = Inr acc'"
  shows "acc' = acc @ [(s, e)] \<or>
         (\<exists>i cs ce. i < length acc \<and> acc ! i = (cs, ce) \<and> cs \<le> s \<and> s \<le> ce \<and>
                    acc' = acc[i := (cs, max e ce)])"
proof (cases "list_ex id (overlapping acc s)")
  case False
  then show ?thesis
    using assms by (simp add: cov_step_def)
next
  case True
  then obtain i where i: "where_true (overlapping acc s) = [i]"
    using assms
    by (auto simp add: cov_step_def split: list.splits)
  then have b: "i < length acc" "overlapping acc s ! i"
    using where_true_single [OF i] by (simp_all add: overlapping_def)
  obtain cs ce where c: "acc ! i = (cs, ce)"
    by (cases "acc ! i")
  have "cs \<le> s \<and> s \<le> ce"
    using b c by (simp add: overlapping_def)
  moreover have "acc' = acc[i := (cs, max e ce)]"
    using assms True i c by (simp add: cov_step_def)
  ultimately show ?thesis
    using b(1) c by blast
qed

lemma holds_span_mono: "holds_span S cov \<Longrightarrow> S \<subseteq> T \<Longrightarrow> holds_span T cov"
  by (auto simp add: holds_span_def)

lemma cov_step_seeded:
  assumes "cov_step acc (s, e) = Inr acc'" and "seeded S acc"
  shows "seeded (insert (s, e) S) acc'"
proof -
  let ?T = "insert (s, e) S"
  have old: "\<And>j. j < length acc \<Longrightarrow> (j = 0 \<and> acc ! 0 = (1, 1)) \<or> holds_span ?T (acc ! j)"
    using assms(2) by (auto simp add: seeded_def intro: holds_span_mono)
  have ne: "acc \<noteq> []"
    using assms(2) by (simp add: seeded_def)
  from cov_step_cases [OF assms(1)] show ?thesis
  proof
    assume a: "acc' = acc @ [(s, e)]"
    have "holds_span ?T (s, e)"
      by (auto simp add: holds_span_def)
    then show ?thesis
      using old ne by (auto simp add: seeded_def a nth_append)
  next
    assume "\<exists>i cs ce. i < length acc \<and> acc ! i = (cs, ce) \<and> cs \<le> s \<and> s \<le> ce \<and>
                    acc' = acc[i := (cs, max e ce)]"
    then obtain i cs ce where i: "i < length acc" "acc ! i = (cs, ce)" "cs \<le> s" "s \<le> ce"
        "acc' = acc[i := (cs, max e ce)]"
      by blast
    have new: "holds_span ?T (cs, max e ce)"
      using i(3) by (auto simp add: holds_span_def)
    have "\<And>j. j < length acc' \<Longrightarrow> (j = 0 \<and> acc' ! 0 = (1, 1)) \<or> holds_span ?T (acc' ! j)"
    proof -
      fix j assume j: "j < length acc'"
      show "(j = 0 \<and> acc' ! 0 = (1, 1)) \<or> holds_span ?T (acc' ! j)"
      proof (cases "j = i")
        case True
        then show ?thesis using new i(1) i(5) by simp
      next
        case False
        then have "acc' ! j = acc ! j"
          using i(5) by simp
        moreover have "acc' ! 0 = acc ! 0" if "j = 0"
          using that False i(5) by simp
        ultimately show ?thesis
          using old [of j] j i(5) by auto
      qed
    qed
    then show ?thesis
      using ne i(5) by (simp add: seeded_def)
  qed
qed

lemma cov_loop_seeded:
  "cov_loop acc xs = Inr acc' \<Longrightarrow> seeded S acc \<Longrightarrow> seeded (S \<union> set xs) acc'"
proof (induction xs arbitrary: acc S)
  case Nil
  then show ?case by simp
next
  case (Cons x xs)
  obtain s e where x: "x = (s, e)" by (cases x)
  from Cons.prems(1) obtain acc1 where 1: "cov_step acc (s, e) = Inr acc1"
      and 2: "cov_loop acc1 xs = Inr acc'"
    by (auto simp add: x split: sum.splits)
  have "seeded (insert (s, e) S) acc1"
    using cov_step_seeded [OF 1 Cons.prems(2)] .
  from Cons.IH [OF 2 this] show ?case
    by (simp add: x)
qed

lemma get_coverages_holds_span:
  assumes "get_coverages starts ends = Inr covs" and "cov \<in> set covs"
  shows "holds_span (set (zip starts ends)) cov"
proof -
  obtain acc where acc: "cov_loop [(1, 1)] (zip starts ends) = Inr acc"
      and covs: "covs = (if (1, 1) \<in> set acc then remove1 (1, 1) acc else acc)"
    using assms(1) by (auto simp add: get_coverages_def split: sum.splits)
  have "seeded {} [(1, 1)]"
    by (simp add: seeded_def)
  from cov_loop_seeded [OF acc this]
  have sd: "seeded (set (zip starts ends)) acc"
    by simp
  then obtain a t where at: "acc = a # t"
    by (cases acc) (auto simp add: seeded_def)
  have tl: "holds_span (set (zip starts ends)) c" if "c \<in> set t" for c
  proof -
    from that obtain k where "k < length t" "t ! k = c"
      by (auto simp add: in_set_conv_nth)
    then show ?thesis
      using sd by (auto simp add: seeded_def at dest: spec [where x = "Suc k"])
  qed
  show ?thesis
  proof (cases "a = (1, 1)")
    case True
    then have "covs = t"
      using covs at by simp
    then show ?thesis
      using tl assms(2) by simp
  next
    case False
    then have "holds_span (set (zip starts ends)) a"
      using sd by (auto simp add: seeded_def at dest: spec [where x = 0])
    moreover have "cov \<in> set acc"
      using assms(2) covs set_remove1_subset [of "(1, 1)" acc] by (auto split: if_splits)
    ultimately show ?thesis
      using tl [of cov] at by (cases "cov = a") simp_all
  qed
qed

lemma coverages_of_nonempty_region:
  assumes "sorts_by e_val by_e_val" and "sorts_by start by_start"
    and "coverages_of by_e_val by_start df = Inr covs" and "cov \<in> set covs"
  shows "filter (inside cov) (by_e_val df) \<noteq> []"
proof -
  let ?ss = "by_start (by_e_val df)"
  have "holds_span (set (zip (map start ?ss) (map end_pos ?ss))) cov"
    using assms(3) assms(4)
    by (intro get_coverages_holds_span) (simp_all add: coverages_of_def Let_def)
  then obtain s e where "(s, e) \<in> set (zip (map start ?ss) (map end_pos ?ss))"
      "fst cov \<le> s" "e \<le> snd cov"
    by (auto simp add: holds_span_def)
  then obtain h where "h \<in> set ?ss" "fst cov \<le> start h" "end_pos h \<le> snd cov"
    by (auto simp add: zip_map_map zip_same_conv_map)
  then have "h \<in> set (by_e_val df)" "inside cov h"
    using assms(2) by (cases cov; simp add: inside_def)+
  then show ?thesis
    by (auto simp add: filter_empty_conv)
qed

lemma chimera_branch:
  assumes "sorts_by e_val by_e_val" and "sorts_by start by_start"
    and "coverages_of by_e_val by_start df = Inr covs"
  shows "chimera_loop (by_e_val df) covs []
      = map (\<lambda>cov. set_origin ''chimera'' (first_best (filter (inside cov) (by_e_val df)))) covs"
proof -
  have "concat (map (region_best (by_e_val df)) cs)
      = map (\<lambda>cov. set_origin ''chimera'' (first_best (filter (inside cov) (by_e_val df)))) cs"
    if "set cs \<subseteq> set covs" for cs
    using that
  proof (induction cs)
    case Nil
    then show ?case by simp
  next
    case (Cons c cs)
    then have "filter (inside c) (by_e_val df) \<noteq> []"
      using coverages_of_nonempty_region [OF assms, of c] by simp
    then show ?case
      using Cons by (simp add: region_best_first)
  qed
  then show ?thesis
    by (simp add: chimera_loop_concat)
qed

text \<open>
  The result of the last part of \<open>assign_tax\<close>: the best-ranked hit of the sorted table
  with one region, the best-ranked hit within each region otherwise, ties going to the
  row that comes first in the table as sorted by \<open>e_val\<close>.
\<close>

lemma assign_tax_region_result:
  assumes "sorts_by e_val by_e_val" and "sorts_by start by_start"
    and "length df \<noteq> 1"
    and "\<forall>h\<in>set df. alignment_length h < query_length h"
    and "coverages_of by_e_val by_start df = Inr covs"
  shows "returned (assign_tax by_e_val by_start df) =
      (if length covs = 1
       then Inr [set_origin ''single'' (first_best (by_e_val df))]
       else Inr (map (\<lambda>cov. set_origin ''chimera''
                   (first_best (filter (inside cov) (by_e_val df)))) covs))"
proof (cases "length covs = 1")
  case True
  then obtain cov where "covs = [cov]"
    by (cases covs) auto
  then have "filter (inside cov) (by_e_val df) \<noteq> []"
    using coverages_of_nonempty_region [OF assms(1) assms(2) assms(5), of cov] by simp
  then have ne: "by_e_val df \<noteq> []"
    by auto
  have r: "returned (assign_tax by_e_val by_start df)
      = Inr (map (set_origin ''single'') (take 1 (sort_key rank (by_e_val df))))"
    using assign_tax_region_analysis [OF assms(1) assms(3) assms(4) assms(5)] True by simp
  show ?thesis
    unfolding r take1_first_best [OF ne] using True by simp
next
  case False
  then show ?thesis
    using assign_tax_region_analysis [OF assms(1) assms(3) assms(4) assms(5)]
    by (simp add: chimera_branch [OF assms(1) assms(2) assms(5)])
qed

subsection \<open>The position of the selected hit in the table\<close>

lemma hd_filter_index:
  assumes "\<exists>x\<in>set xs. P x"
  shows "\<exists>i<length xs. xs ! i = hd (filter P xs) \<and> P (xs ! i) \<and> (\<forall>j<i. \<not> P (xs ! j))"
  using assms
proof (induction xs)
  case Nil
  then show ?case by simp
next
  case (Cons x xs)
  show ?case
  proof (cases "P x")
    case True
    then have "0 < length (x # xs) \<and> (x # xs) ! 0 = hd (filter P (x # xs)) \<and>
        P ((x # xs) ! 0) \<and> (\<forall>j<0. \<not> P ((x # xs) ! j))"
      by simp
    then show ?thesis by blast
  next
    case False
    with Cons.prems have "\<exists>y\<in>set xs. P y" by auto
    from Cons.IH [OF this] obtain i where i: "i < length xs" "xs ! i = hd (filter P xs)"
        "P (xs ! i)" "\<forall>j<i. \<not> P (xs ! j)"
      by blast
    have "\<forall>j<Suc i. \<not> P ((x # xs) ! j)"
    proof (intro allI impI)
      fix j assume "j < Suc i"
      then show "\<not> P ((x # xs) ! j)"
        using False i(4) by (cases j) auto
    qed
    then have "Suc i < length (x # xs) \<and> (x # xs) ! Suc i = hd (filter P (x # xs)) \<and>
        P ((x # xs) ! Suc i) \<and> (\<forall>j<Suc i. \<not> P ((x # xs) ! j))"
      using i False by simp
    then show ?thesis by blast
  qed
qed

lemma first_best_filter_index:
  assumes "filter cand df \<noteq> []"
  shows "\<exists>i. first_of_best cand df i \<and> df ! i = first_best (filter cand df)"
proof -
  let ?B = "\<lambda>h. \<forall>h'\<in>set (filter cand df). ranks_before h h'"
  let ?P = "\<lambda>h. cand h \<and> ?B h"
  have fb: "first_best (filter cand df) = hd (filter ?P df)"
    by (simp add: first_best_def)
  have props: "first_best (filter cand df) \<in> set (filter cand df)"
      "?B (first_best (filter cand df))"
    using first_best_props [OF assms] by blast+
  then have "\<exists>x\<in>set df. ?P x"
    by auto
  from hd_filter_index [OF this] obtain i where i: "i < length df"
      "df ! i = hd (filter ?P df)" "?P (df ! i)" "\<forall>j<i. \<not> ?P (df ! j)"
    by blast
  have "\<not> (e_val (df ! j) = e_val (df ! i) \<and>
            alignment_length (df ! j) = alignment_length (df ! i))"
    if "j < i" "cand (df ! j)" for j
  proof
    assume tie: "e_val (df ! j) = e_val (df ! i) \<and>
        alignment_length (df ! j) = alignment_length (df ! i)"
    have "?B (df ! j)"
      using i(3) tie by (simp add: ranks_before_def)
    with that i(4) show False by blast
  qed
  then have "first_of_best cand df i"
    using i(1) i(3) by (simp add: first_of_best_def)
  then show ?thesis
    using i(2) fb by auto
qed

text \<open>The positions of the selected hits in a table, region by region.\<close>

lemma positions_of_best:
  assumes "\<forall>c\<in>set cs. filter (inside c) tbl \<noteq> []"
  shows "\<exists>idx. length idx = length cs \<and>
      (\<forall>k<length cs. first_of_best (inside (cs ! k)) tbl (idx ! k)) \<and>
      map (\<lambda>c. first_best (filter (inside c) tbl)) cs = map (\<lambda>i. tbl ! i) idx"
  using assms
proof (induction cs)
  case Nil
  then show ?case by simp
next
  case (Cons c cs)
  then obtain idx where idx: "length idx = length cs"
      "\<forall>k<length cs. first_of_best (inside (cs ! k)) tbl (idx ! k)"
      "map (\<lambda>c. first_best (filter (inside c) tbl)) cs = map (\<lambda>i. tbl ! i) idx"
    by auto
  have "filter (inside c) tbl \<noteq> []"
    using Cons.prems by simp
  from first_best_filter_index [OF this] obtain i where
    i: "first_of_best (inside c) tbl i" "tbl ! i = first_best (filter (inside c) tbl)"
    by auto
  have "\<forall>k<length (c # cs). first_of_best (inside ((c # cs) ! k)) tbl ((i # idx) ! k)"
  proof (intro allI impI)
    fix k assume "k < length (c # cs)"
    then show "first_of_best (inside ((c # cs) ! k)) tbl ((i # idx) ! k)"
      using i(1) idx(2) by (cases k) auto
  qed
  then have "length (i # idx) = length (c # cs) \<and>
      (\<forall>k<length (c # cs). first_of_best (inside ((c # cs) ! k)) tbl ((i # idx) ! k)) \<and>
      map (\<lambda>c. first_best (filter (inside c) tbl)) (c # cs) = map (\<lambda>i. tbl ! i) (i # idx)"
    using idx(1) idx(3) i(2) by simp
  then show ?case by blast
qed

text \<open>
  When the sort by \<open>e_val\<close> keeps rows with equal keys in their order, the selected hit
  is the first of the tied hits in the input table.
\<close>

lemma ties_first_in_input_order_when_stable:
  assumes "sorts_by start by_start"
    and "length df \<noteq> 1"
    and "\<forall>h\<in>set df. alignment_length h < query_length h"
    and "coverages_of (sort_key e_val) by_start df = Inr covs"
  shows "if length covs = 1
     then (\<exists>i. first_of_best (\<lambda>h. True) df i \<and>
               returned (assign_tax (sort_key e_val) by_start df)
                 = Inr [set_origin ''single'' (df ! i)])
     else (\<exists>idx. length idx = length covs \<and>
               (\<forall>k<length covs. first_of_best (inside (covs ! k)) df (idx ! k)) \<and>
               returned (assign_tax (sort_key e_val) by_start df)
                 = Inr (map (\<lambda>i. set_origin ''chimera'' (df ! i)) idx))"
proof -
  note se = sorts_by_sort_key [of e_val]
  have ne: "filter (inside c) df \<noteq> []" if "c \<in> set covs" for c
  proof -
    have "filter (inside c) (sort_key e_val df) \<noteq> []"
      using coverages_of_nonempty_region [OF se assms(1) assms(4) that] .
    then show ?thesis
      by (auto simp add: filter_empty_conv)
  qed
  have pick: "first_best (filter (inside c) (sort_key e_val df)) = first_best (filter (inside c) df)"
    if "c \<in> set covs" for c
    using first_best_stable [OF ne [OF that]] by (simp add: filter_sort)
  show ?thesis
  proof (cases "length covs = 1")
    case True
    then obtain cov where cov: "covs = [cov]"
      by (cases covs) auto
    then have "df \<noteq> []"
      using ne [of cov] by auto
    then have fb: "first_best (sort_key e_val df) = first_best df"
        and "filter (\<lambda>h. True) df \<noteq> []"
      by (simp_all add: first_best_stable)
    from first_best_filter_index [OF this(2)] obtain i where
      i: "first_of_best (\<lambda>h. True) df i" "df ! i = first_best df"
      by auto
    have "returned (assign_tax (sort_key e_val) by_start df)
        = Inr [set_origin ''single'' (first_best df)]"
      using assign_tax_region_result [OF se assms] True fb by simp
    then show ?thesis
      using True i by auto
  next
    case False
    let ?pick = "\<lambda>cov. first_best (filter (inside cov) df)"
    have "map (\<lambda>cov. set_origin ''chimera''
              (first_best (filter (inside cov) (sort_key e_val df)))) covs
        = map (\<lambda>cov. set_origin ''chimera'' (?pick cov)) covs"
      using pick by simp
    then have out: "returned (assign_tax (sort_key e_val) by_start df)
        = Inr (map (\<lambda>cov. set_origin ''chimera'' (?pick cov)) covs)"
      using assign_tax_region_result [OF se assms] False by simp
    have "\<forall>c\<in>set covs. filter (inside c) df \<noteq> []"
      using ne by blast
    from positions_of_best [OF this]
    obtain idx where idx: "length idx = length covs"
        "\<forall>k<length covs. first_of_best (inside (covs ! k)) df (idx ! k)"
        "map ?pick covs = map (\<lambda>i. df ! i) idx"
      by blast
    have "map (\<lambda>cov. set_origin ''chimera'' (?pick cov)) covs
        = map (set_origin ''chimera'') (map ?pick covs)"
      by simp
    also have "\<dots> = map (\<lambda>i. set_origin ''chimera'' (df ! i)) idx"
      by (simp add: idx(3))
    finally show ?thesis
      using False out idx(1) idx(2) by auto
  qed
qed

subsection \<open>One iteration on start-sorted spans\<close>

text \<open>
  When every region ends before the last one starts and the new span starts at or after
  the last region's start, only the last region can overlap the span: the iteration
  extends the last region or appends the span, and never raises.
\<close>

lemma where_true_snoc:
  "where_true (bs @ [b]) = where_true bs @ (if b then [length bs] else [])"
proof -
  have "filter (\<lambda>i. (bs @ [b]) ! i) [0..<length bs] = filter (\<lambda>i. bs ! i) [0..<length bs]"
    by (rule filter_cong) (simp_all add: nth_append)
  then show ?thesis
    by (simp add: where_true_def)
qed

lemma where_true_none:
  assumes "\<forall>b\<in>set bs. \<not> b"
  shows "where_true bs = []"
proof -
  have "\<not> bs ! i" if "i < length bs" for i
    using assms that by (meson nth_mem)
  then show ?thesis
    by (simp add: where_true_def filter_empty_conv)
qed

lemma length_overlapping [simp]: "length (overlapping acc s) = length acc"
  by (simp add: overlapping_def)

lemma overlapping_snoc:
  "overlapping (front @ [l]) s = overlapping front s @ [fst l \<le> s \<and> s \<le> snd l]"
  by (cases l) (simp add: overlapping_def)

lemma overlapping_front_none:
  assumes "\<forall>r\<in>set front. snd r < s"
  shows "\<forall>b\<in>set (overlapping front s). \<not> b"
  using assms by (auto simp add: overlapping_def)

lemma cov_step_last:
  assumes "\<forall>r\<in>set front. snd r < fst l" and "fst l \<le> s"
  shows "cov_step (front @ [l]) (s, e) =
      Inr (if s \<le> snd l then front @ [(fst l, max e (snd l))] else front @ [l] @ [(s, e)])"
proof -
  have none: "\<forall>b\<in>set (overlapping front s). \<not> b"
    using assms by (intro overlapping_front_none) auto
  then have ex: "list_ex id (overlapping (front @ [l]) s) = (s \<le> snd l)"
    using assms(2) by (auto simp add: overlapping_snoc list_ex_iff)
  have wt: "where_true (overlapping (front @ [l]) s) = (if s \<le> snd l then [length front] else [])"
    using assms(2) where_true_none [OF none]
    by (simp add: overlapping_snoc where_true_snoc)
  show ?thesis
  proof (cases "s \<le> snd l")
    case True
    then show ?thesis
      using ex wt by (cases l) (simp add: cov_step_def)
  next
    case False
    then show ?thesis
      using ex by (simp add: cov_step_def)
  qed
qed

subsection \<open>The invariant is kept\<close>

lemma is_origin_grow:
  assumes "is_origin P r k" and "fst r' = fst r" and "snd r \<le> snd r'"
  shows "is_origin (P @ Q) r' k"
  using assms by (auto simp add: is_origin_def nth_append)

lemma origins_grow:
  assumes "list_all2 (is_origin P) t os"
  shows "list_all2 (is_origin (P @ Q)) t os"
  using assms by (rule list_all2_mono) (auto intro: is_origin_grow)

lemma origins_bound:
  assumes "list_all2 (is_origin P) t os" and "k \<in> set os"
  shows "k < length P"
proof -
  from assms(2) obtain i where "i < length os" "os ! i = k"
    by (auto simp add: in_set_conv_nth)
  then have "is_origin P (t ! i) k"
    using assms(1) by (auto simp add: list_all2_conv_all_nth)
  then show ?thesis
    by (simp add: is_origin_def)
qed

lemma spans_held_keep:
  assumes "spans_held P acc" and "\<forall>r\<in>set acc. \<exists>r'\<in>set acc'. fst r' = fst r \<and> snd r \<le> snd r'"
    and "snd x < fst x \<or> (\<exists>r\<in>set acc'. starts_in r x \<and> snd x \<le> snd r)"
  shows "spans_held (P @ [x]) acc'"
proof -
  have "snd p < fst p \<or> (\<exists>r\<in>set acc'. starts_in r p \<and> snd p \<le> snd r)" if pP: "p \<in> set P" for p
  proof (cases "snd p < fst p")
    case True
    then show ?thesis by simp
  next
    case False
    then obtain r where r: "r \<in> set acc" "starts_in r p" "snd p \<le> snd r"
      using assms(1) pP by (auto simp add: spans_held_def)
    then obtain r' where "r' \<in> set acc'" "fst r' = fst r" "snd r \<le> snd r'"
      using assms(2) by blast
    then have "r' \<in> set acc' \<and> starts_in r' p \<and> snd p \<le> snd r'"
      using r by (simp add: starts_in_def)
    then show ?thesis by blast
  qed
  then show ?thesis
    using assms(3) by (auto simp add: spans_held_def)
qed

lemma points_held_more:
  assumes "points_held P acc" and "r \<in> set acc"
  shows "r = (1, 1) \<or> (\<forall>z\<in>span_range r. \<exists>p\<in>set (P @ Q). starts_in r p \<and> z \<in> span_range p)"
  using assms by (fastforce simp add: points_held_def)

lemma points_held_extend:
  assumes "points_held P acc" and "r \<in> set acc" and "starts_in r (s, e)"
  shows "(fst r, max e (snd r)) = (1, 1) \<or>
      (\<forall>z\<in>span_range (fst r, max e (snd r)).
          \<exists>p\<in>set (P @ [(s, e)]). starts_in (fst r, max e (snd r)) p \<and> z \<in> span_range p)"
proof (cases "\<forall>z\<in>span_range r. \<exists>p\<in>set P. starts_in r p \<and> z \<in> span_range p")
  case True
  have "\<exists>p\<in>set (P @ [(s, e)]). starts_in (fst r, max e (snd r)) p \<and> z \<in> span_range p"
    if z: "z \<in> span_range (fst r, max e (snd r))" for z
  proof (cases "z \<le> snd r")
    case le: True
    then have "z \<in> span_range r"
      using z by (simp add: span_range_def)
    then obtain p where "p \<in> set P" "starts_in r p" "z \<in> span_range p"
      using True by blast
    then have "p \<in> set (P @ [(s, e)]) \<and> starts_in (fst r, max e (snd r)) p \<and> z \<in> span_range p"
      by (auto simp add: starts_in_def)
    then show ?thesis by blast
  next
    case False
    then have "starts_in (fst r, max e (snd r)) (s, e) \<and> z \<in> span_range (s, e)"
      using z assms(3) by (auto simp add: starts_in_def span_range_def)
    then show ?thesis by auto
  qed
  then show ?thesis by blast
next
  case False
  then have r: "r = (1, 1)"
    using assms(1) assms(2) by (auto simp add: points_held_def)
  then have s: "s = 1"
    using assms(3) by (simp add: starts_in_def)
  show ?thesis
  proof (cases "e \<le> 1")
    case True
    then show ?thesis using r by simp
  next
    case False
    have "\<exists>p\<in>set (P @ [(s, e)]). starts_in (fst r, max e (snd r)) p \<and> z \<in> span_range p"
      if "z \<in> span_range (fst r, max e (snd r))" for z
    proof -
      have "starts_in (fst r, max e (snd r)) (s, e) \<and> z \<in> span_range (s, e)"
        using that r s False by (auto simp add: starts_in_def span_range_def)
      then show ?thesis by auto
    qed
    then show ?thesis by blast
  qed
qed

lemma spans_heldD:
  assumes "spans_held P acc" and "p \<in> set P" and "fst p \<le> snd p"
  shows "\<exists>r\<in>set acc. starts_in r p \<and> snd p \<le> snd r"
proof -
  have "snd p < fst p \<or> (\<exists>r\<in>set acc. starts_in r p \<and> snd p \<le> snd r)"
    using assms(1) assms(2) by (simp add: spans_held_def)
  then show ?thesis
    using assms(3) by auto
qed

lemma merged_append:
  assumes m: "merged P h t" and far: "\<forall>r\<in>set (h # t). snd r < s"
    and le: "\<forall>p\<in>set P. fst p \<le> s"
  shows "merged (P @ [(s, e)]) h (t @ [(s, e)])"
proof -
  let ?P = "P @ [(s, e)]"
  let ?acc = "h # t @ [(s, e)]"
  obtain os where os: "list_all2 (is_origin P) t os" "sorted_wrt (<) os"
    using m by (auto simp add: merged_def)
  have held: "spans_held P (h # t)" and pts: "points_held P (h # t)"
    using m by (simp_all add: merged_def)
  have 1: "sep ?acc"
    using m far by (simp add: merged_def sep_def sorted_wrt_append)
  have 2: "\<forall>r\<in>set (t @ [(s, e)]). fst r \<in> fst ` set ?P"
    using m by (auto simp add: merged_def)
  have 3: "spans_held ?P ?acc"
  proof (rule spans_held_keep [OF held])
    show "\<forall>r\<in>set (h # t). \<exists>r'\<in>set ?acc. fst r' = fst r \<and> snd r \<le> snd r'"
      by auto
    show "snd (s, e) < fst (s, e) \<or> (\<exists>r\<in>set ?acc. starts_in r (s, e) \<and> snd (s, e) \<le> snd r)"
      by (cases "e < s") (auto simp add: starts_in_def)
  qed
  have 4: "points_held ?P ?acc"
  proof -
    have "r = (1, 1) \<or> (\<forall>z\<in>span_range r. \<exists>p\<in>set ?P. starts_in r p \<and> z \<in> span_range p)"
      if r: "r \<in> set ?acc" for r
    proof (cases "r \<in> set (h # t)")
      case True
      then show ?thesis by (rule points_held_more [OF pts])
    next
      case False
      then have "r = (s, e)" using r by auto
      then have "\<forall>z\<in>span_range r. (s, e) \<in> set ?P \<and> starts_in r (s, e) \<and> z \<in> span_range (s, e)"
        by (auto simp add: starts_in_def span_range_def)
      then show ?thesis by blast
    qed
    then show ?thesis by (simp add: points_held_def)
  qed
  have 5: "h = (1, 1) \<or> is_origin ?P h 0"
    using m by (auto simp add: merged_def intro: is_origin_grow)
  have first: "fst (?P ! j) < s \<or> snd (?P ! j) < fst (?P ! j)" if j: "j < length P" for j
  proof (rule ccontr)
    assume n: "\<not> (fst (?P ! j) < s \<or> snd (?P ! j) < fst (?P ! j))"
    have pj: "?P ! j = P ! j" "P ! j \<in> set P"
      using j by (simp_all add: nth_append)
    then have eq: "fst (P ! j) = s" "fst (P ! j) \<le> snd (P ! j)"
      using n le by (auto simp add: not_less dest: bspec [where x = "P ! j"])
    then obtain r where r: "r \<in> set (h # t)" "starts_in r (P ! j)"
      using spans_heldD [OF held pj(2)] by blast
    then have "s \<le> snd r"
      using eq(1) by (simp add: starts_in_def)
    with far r(1) show False by fastforce
  qed
  have new: "is_origin ?P (s, e) (length P)"
    using first by (simp add: is_origin_def)
  have 6: "list_all2 (is_origin ?P) (t @ [(s, e)]) (os @ [length P])"
    using origins_grow [OF os(1), of "[(s, e)]"] new by (intro list_all2_appendI) simp_all
  have 7: "sorted_wrt (<) (os @ [length P])"
    using os(2) origins_bound [OF os(1)] by (simp add: sorted_wrt_append)
  have "\<exists>os'. list_all2 (is_origin ?P) (t @ [(s, e)]) os' \<and> sorted_wrt (<) os'"
    using 6 7 by blast
  then show ?thesis
    using m 1 2 3 4 5 by (simp add: merged_def)
qed

lemma merged_extend_last:
  assumes m: "merged P h (t0 @ [l])" and ls: "fst l \<le> s" and sl: "s \<le> snd l"
  shows "merged (P @ [(s, e)]) h (t0 @ [(fst l, max e (snd l))])"
proof -
  let ?P = "P @ [(s, e)]"
  let ?l = "(fst l, max e (snd l))"
  let ?acc = "h # t0 @ [?l]"
  obtain os where os: "list_all2 (is_origin P) (t0 @ [l]) os" "sorted_wrt (<) os"
    using m by (auto simp add: merged_def)
  have held: "spans_held P (h # t0 @ [l])" and pts: "points_held P (h # t0 @ [l])"
    using m by (simp_all add: merged_def)
  have in_l: "starts_in l (s, e)"
    using ls sl by (simp add: starts_in_def)
  have 1: "sep ?acc"
    using m by (simp add: merged_def sep_def sorted_wrt_append)
  have 2: "\<forall>r\<in>set (t0 @ [?l]). fst r \<in> fst ` set ?P"
    using m by (auto simp add: merged_def)
  have 3: "spans_held ?P ?acc"
  proof (rule spans_held_keep [OF held])
    show "\<forall>r\<in>set (h # t0 @ [l]). \<exists>r'\<in>set ?acc. fst r' = fst r \<and> snd r \<le> snd r'"
      by auto
    have "?l \<in> set ?acc \<and> starts_in ?l (s, e) \<and> snd (s, e) \<le> snd ?l"
      using in_l by (auto simp add: starts_in_def)
    then show "snd (s, e) < fst (s, e) \<or>
        (\<exists>r\<in>set ?acc. starts_in r (s, e) \<and> snd (s, e) \<le> snd r)"
      by blast
  qed
  have 4: "points_held ?P ?acc"
  proof -
    have "r = (1, 1) \<or> (\<forall>z\<in>span_range r. \<exists>p\<in>set ?P. starts_in r p \<and> z \<in> span_range p)"
      if r: "r \<in> set ?acc" for r
    proof (cases "r \<in> set (h # t0)")
      case True
      then have "r \<in> set (h # t0 @ [l])" by auto
      then show ?thesis by (rule points_held_more [OF pts])
    next
      case False
      then have "r = ?l" using r by auto
      moreover have "l \<in> set (h # t0 @ [l])" by simp
      ultimately show ?thesis
        using points_held_extend [OF pts _ in_l] by simp
    qed
    then show ?thesis by (simp add: points_held_def)
  qed
  have 5: "h = (1, 1) \<or> is_origin ?P h 0"
    using m by (auto simp add: merged_def intro: is_origin_grow)
  from os(1) obtain us vs where uv: "os = us @ vs" "list_all2 (is_origin P) t0 us"
      "list_all2 (is_origin P) [l] vs"
    by (auto simp add: list_all2_append1)
  then obtain k where k: "vs = [k]" "is_origin P l k"
    by (auto simp add: list_all2_Cons1)
  have "is_origin ?P ?l k"
    using k(2) by (rule is_origin_grow) simp_all
  then have "list_all2 (is_origin ?P) (t0 @ [?l]) (us @ [k])"
    using origins_grow [OF uv(2), of "[(s, e)]"] by (intro list_all2_appendI) simp_all
  then have "\<exists>os'. list_all2 (is_origin ?P) (t0 @ [?l]) os' \<and> sorted_wrt (<) os'"
    using os(2) uv(1) k(1) by auto
  then show ?thesis
    using m 1 2 3 4 5 by (simp add: merged_def)
qed

lemma merged_extend_head:
  assumes m: "merged P h []" and s1: "1 \<le> s" and sh: "s \<le> snd h"
    and le: "\<forall>p\<in>set P. 1 \<le> fst p \<and> fst p \<le> s"
  shows "merged (P @ [(s, e)]) (1, max e (snd h)) []"
proof -
  let ?P = "P @ [(s, e)]"
  let ?h = "(1, max e (snd h))"
  have h1: "fst h = 1" "1 \<le> snd h"
    using m by (simp_all add: merged_def)
  have held: "spans_held P [h]" and pts: "points_held P [h]"
    using m by (simp_all add: merged_def)
  have in_h: "starts_in h (s, e)"
    using s1 sh h1 by (simp add: starts_in_def)
  have 3: "spans_held ?P [?h]"
  proof (rule spans_held_keep [OF held])
    show "\<forall>r\<in>set [h]. \<exists>r'\<in>set [?h]. fst r' = fst r \<and> snd r \<le> snd r'"
      using h1 by simp
    show "snd (s, e) < fst (s, e) \<or> (\<exists>r\<in>set [?h]. starts_in r (s, e) \<and> snd (s, e) \<le> snd r)"
      using in_h h1 by (auto simp add: starts_in_def)
  qed
  have 4: "points_held ?P [?h]"
    using points_held_extend [OF pts _ in_h] h1 by (simp add: points_held_def)
  have 5: "?h = (1, 1) \<or> is_origin ?P ?h 0"
  proof (cases "h = (1, 1)")
    case False
    then have "is_origin P h 0"
      using m by (simp add: merged_def)
    then have "is_origin ?P ?h 0"
      by (rule is_origin_grow) (simp_all add: h1)
    then show ?thesis by simp
  next
    case True
    then have s: "s = 1"
      using s1 sh by simp
    show ?thesis
    proof (cases "e \<le> 1")
      case True
      then show ?thesis using \<open>h = (1, 1)\<close> by simp
    next
      case e: False
      have "is_origin ?P ?h 0"
      proof (cases P)
        case Nil
        then show ?thesis
          using s by (simp add: is_origin_def)
      next
        case (Cons p ps)
        then have p: "p \<in> set P" by simp
        then have fp: "fst p = 1"
          using le s by fastforce
        have "snd p \<le> 1"
        proof (cases "snd p < fst p")
          case True
          then show ?thesis using fp by simp
        next
          case False
          then show ?thesis
            using spans_heldD [OF held p] \<open>h = (1, 1)\<close> by auto
        qed
        then show ?thesis
          using Cons fp e by (simp add: is_origin_def)
      qed
      then show ?thesis by simp
    qed
  qed
  show ?thesis
    using h1 3 4 5 by (simp add: merged_def sep_def)
qed

lemma cov_step_merged:
  assumes m: "merged P h t" and le: "\<forall>p\<in>set P. 1 \<le> fst p \<and> fst p \<le> s" and s1: "1 \<le> s"
  shows "\<exists>h' t'. cov_step (h # t) (s, e) = Inr (h' # t') \<and> merged (P @ [(s, e)]) h' t'"
proof (cases t rule: rev_cases)
  case Nil
  have h1: "fst h = 1"
    using m by (simp add: merged_def)
  have step: "cov_step ([] @ [h]) (s, e) =
      Inr (if s \<le> snd h then [] @ [(fst h, max e (snd h))] else [] @ [h] @ [(s, e)])"
    using s1 h1 by (intro cov_step_last) simp_all
  show ?thesis
  proof (cases "s \<le> snd h")
    case True
    have "merged (P @ [(s, e)]) (1, max e (snd h)) []"
      using m s1 True le unfolding Nil by (rule merged_extend_head)
    then show ?thesis
      using step True h1 Nil by simp
  next
    case False
    have "merged (P @ [(s, e)]) h (t @ [(s, e)])"
      using m False le Nil by (intro merged_append) simp_all
    then show ?thesis
      using step False Nil by simp
  qed
next
  case (snoc t0 l)
  have sp: "sep (h # t0 @ [l])" and st: "fst l \<in> fst ` set P"
    using m snoc by (simp_all add: merged_def)
  have front: "\<forall>r\<in>set (h # t0). snd r < fst l"
    using sp by (simp add: sep_def sorted_wrt_append)
  have ls: "fst l \<le> s"
    using st le by auto
  have step: "cov_step ((h # t0) @ [l]) (s, e) =
      Inr (if s \<le> snd l then (h # t0) @ [(fst l, max e (snd l))]
           else (h # t0) @ [l] @ [(s, e)])"
    using front ls by (rule cov_step_last)
  show ?thesis
  proof (cases "s \<le> snd l")
    case True
    have "merged (P @ [(s, e)]) h (t0 @ [(fst l, max e (snd l))])"
      using m ls True unfolding snoc by (rule merged_extend_last)
    then show ?thesis
      using step True snoc by simp
  next
    case False
    have "\<forall>r\<in>set (h # t). snd r < s"
      using front ls False snoc by auto
    then have "merged (P @ [(s, e)]) h (t @ [(s, e)])"
      using m le by (intro merged_append) simp_all
    then show ?thesis
      using step False snoc by simp
  qed
qed

lemma cov_loop_merged:
  assumes "merged P h t" and "sorted (map fst (P @ R))" and "\<forall>p\<in>set (P @ R). 1 \<le> fst p"
  shows "\<exists>h' t'. cov_loop (h # t) R = Inr (h' # t') \<and> merged (P @ R) h' t'"
  using assms
proof (induction R arbitrary: P h t)
  case Nil
  then show ?case by simp
next
  case (Cons x R)
  obtain s e where x: "x = (s, e)" by (cases x)
  have le: "\<forall>p\<in>set P. 1 \<le> fst p \<and> fst p \<le> s"
    using Cons.prems(2) Cons.prems(3) by (auto simp add: x sorted_append)
  have s1: "1 \<le> s"
    using Cons.prems(3) by (simp add: x)
  from cov_step_merged [OF Cons.prems(1) le s1, of e]
  obtain h1 t1 where 1: "cov_step (h # t) (s, e) = Inr (h1 # t1)"
      and 2: "merged (P @ [(s, e)]) h1 t1"
    by blast
  have "\<exists>h' t'. cov_loop (h1 # t1) R = Inr (h' # t') \<and> merged ((P @ [(s, e)]) @ R) h' t'"
    using 2 Cons.prems(2) Cons.prems(3) by (intro Cons.IH) (simp_all add: x)
  then show ?case
    using 1 by (simp add: x)
qed

lemma merged_start: "merged [] (1, 1) []"
  by (simp add: merged_def sep_def spans_held_def points_held_def)

lemma get_coverages_merged:
  assumes "sorted (map fst spans)" and "\<forall>p\<in>set spans. 1 \<le> fst p"
  shows "\<exists>h t. merged spans h t \<and>
      get_coverages (map fst spans) (map snd spans) = Inr (if h = (1, 1) then t else h # t)"
proof -
  from cov_loop_merged [OF merged_start, of spans] assms
  obtain h t where ht: "cov_loop [(1, 1)] spans = Inr (h # t)" "merged spans h t"
    by auto
  have "\<forall>r\<in>set t. snd h < fst r" and "1 \<le> snd h"
    using ht(2) by (simp_all add: merged_def sep_def)
  then have "(1, 1) \<notin> set t"
    by fastforce
  then have "(if (1, 1) \<in> set (h # t) then remove1 (1, 1) (h # t) else h # t)
      = (if h = (1, 1) then t else h # t)"
    by auto
  then have "get_coverages (map fst spans) (map snd spans)
      = Inr (if h = (1, 1) then t else h # t)"
    using ht(1) by (simp add: get_coverages_def zip_map_fst_snd)
  with ht(2) show ?thesis
    by blast
qed

subsection \<open>What the invariant gives for the returned regions\<close>

lemma covered_iff: "z \<in> covered spans \<longleftrightarrow> (\<exists>p\<in>set spans. z \<in> span_range p)"
  by (auto simp add: covered_def span_range_def)

lemma sep_nth:
  assumes "sep acc" and "i < j" and "j < length acc"
  shows "snd (acc ! i) < fst (acc ! j)"
  using assms by (simp add: sep_def sorted_wrt_iff_nth_less)

lemma sep_disjoint:
  assumes "sep acc" and "i < length acc" and "j < length acc" and "i \<noteq> j"
  shows "span_range (acc ! i) \<inter> span_range (acc ! j) = {}"
proof (cases "i < j")
  case True
  then show ?thesis
    using sep_nth [OF assms(1) True assms(3)] by (auto simp add: span_range_def)
next
  case False
  then have "j < i" using assms(4) by simp
  then show ?thesis
    using sep_nth [OF assms(1) \<open>j < i\<close> assms(2)] by (auto simp add: span_range_def)
qed

lemma sep_unique:
  assumes "sep acc" and "r \<in> set acc" and "r' \<in> set acc"
    and "z \<in> span_range r" and "z \<in> span_range r'"
  shows "r = r'"
proof -
  obtain i j where ij: "i < length acc" "acc ! i = r" "j < length acc" "acc ! j = r'"
    using assms(2) assms(3) by (auto simp add: in_set_conv_nth)
  have "i = j"
  proof (rule ccontr)
    assume "i \<noteq> j"
    then have "span_range (acc ! i) \<inter> span_range (acc ! j) = {}"
      using assms(1) ij(1) ij(3) by (intro sep_disjoint)
    then show False
      using assms(4) assms(5) ij by auto
  qed
  then show ?thesis using ij by simp
qed

lemma merged_region_union:
  assumes m: "merged spans h t" and r: "r \<in> set (h # t)" and n: "r \<noteq> (1, 1)"
  shows "span_range r = covered (filter (starts_in r) spans)"
proof (intro set_eqI iffI)
  fix z assume z: "z \<in> span_range r"
  have "points_held spans (h # t)"
    using m by (simp add: merged_def)
  then obtain p where "p \<in> set spans" "starts_in r p" "z \<in> span_range p"
    using r n z unfolding points_held_def by blast
  then have "p \<in> set (filter (starts_in r) spans)" "z \<in> span_range p"
    by simp_all
  then show "z \<in> covered (filter (starts_in r) spans)"
    unfolding covered_iff by (rule bexI [rotated])
next
  fix z assume "z \<in> covered (filter (starts_in r) spans)"
  then obtain p where "p \<in> set (filter (starts_in r) spans)" "z \<in> span_range p"
    unfolding covered_iff by (rule bexE)
  then have p: "p \<in> set spans" "starts_in r p" "z \<in> span_range p"
    by simp_all
  have held: "spans_held spans (h # t)" and sp: "sep (h # t)"
    using m by (simp_all add: merged_def)
  have "fst p \<le> snd p"
    using p(3) by (simp add: span_range_def)
  from spans_heldD [OF held p(1) this]
  obtain r' where r': "r' \<in> set (h # t)" "starts_in r' p" "snd p \<le> snd r'"
    by blast
  have "fst p \<in> span_range r" "fst p \<in> span_range r'"
    using p(2) r'(2) by (simp_all add: starts_in_def span_range_def)
  then have "r = r'"
    using sp r r'(1) by (intro sep_unique [of "h # t" r r' "fst p"])
  then show "z \<in> span_range r"
    using p(2) p(3) r'(3) by (simp add: starts_in_def span_range_def)
qed

lemma merged_origins:
  assumes m: "merged spans h t"
  shows "\<exists>os. list_all2 (is_origin spans) (if h = (1, 1) then t else h # t) os \<and>
      sorted_wrt (<) os"
proof -
  obtain os where os: "list_all2 (is_origin spans) t os" "sorted_wrt (<) os"
    using m by (auto simp add: merged_def)
  show ?thesis
  proof (cases "h = (1, 1)")
    case True
    then show ?thesis using os by auto
  next
    case False
    then have h0: "is_origin spans h 0"
      using m by (simp add: merged_def)
    have h1: "fst h = 1" "1 \<le> snd h" and sp: "sep (h # t)"
      using m by (simp_all add: merged_def)
    have "0 < k" if k: "k \<in> set os" for k
    proof (rule ccontr)
      assume "\<not> 0 < k"
      then have k0: "k = 0" by simp
      from k obtain i where i: "i < length os" "os ! i = k"
        by (auto simp add: in_set_conv_nth)
      then have "is_origin spans (t ! i) 0" and it: "i < length t"
        using os(1) k0 by (auto simp add: list_all2_conv_all_nth)
      then have "fst (t ! i) = fst h"
        using h0 by (simp add: is_origin_def)
      moreover have "snd h < fst (t ! i)"
        using sp it by (simp add: sep_def)
      ultimately show False
        using h1 by simp
    qed
    then have "sorted_wrt (<) (0 # os)"
      using os(2) by simp
    moreover have "list_all2 (is_origin spans) (h # t) (0 # os)"
      using h0 os(1) by simp
    ultimately show ?thesis
      using False by auto
  qed
qed

text \<open>
  Apart from a span \<open>(1, 1)\<close>, which is taken for the seed, nothing that the spans
  cover is lost.
\<close>

lemma get_coverages_complete:
  assumes "sorted (map fst spans)" and "\<forall>p\<in>set spans. 1 \<le> fst p"
    and "(1, 1) \<notin> set spans"
  shows "\<exists>covs. get_coverages (map fst spans) (map snd spans) = Inr covs \<and>
     covered covs = covered spans"
proof -
  obtain h t where m: "merged spans h t"
      and g: "get_coverages (map fst spans) (map snd spans)
          = Inr (if h = (1, 1) then t else h # t)"
    using get_coverages_merged [OF assms(1) assms(2)] by blast
  let ?covs = "if h = (1, 1) then t else h # t"
  have sp: "sep (h # t)" and h1: "1 \<le> snd h"
    and held: "spans_held spans (h # t)" and pts: "points_held spans (h # t)"
    using m by (simp_all add: merged_def)
  have "\<forall>r\<in>set t. snd h < fst r"
    using sp by (simp add: sep_def)
  then have "(1, 1) \<notin> set t"
    using h1 by fastforce
  then have sub: "\<forall>r\<in>set ?covs. r \<in> set (h # t) \<and> r \<noteq> (1, 1)"
    by auto
  have "covered ?covs = covered spans"
  proof (intro set_eqI iffI)
    fix z assume "z \<in> covered ?covs"
    then obtain r where r: "r \<in> set ?covs" "z \<in> span_range r"
      unfolding covered_iff by (rule bexE)
    then have "r \<in> set (h # t)" "r \<noteq> (1, 1)"
      using sub by blast+
    then obtain p where "p \<in> set spans" "z \<in> span_range p"
      using pts r(2) unfolding points_held_def by blast
    then show "z \<in> covered spans"
      unfolding covered_iff by (rule bexI [rotated])
  next
    fix z assume "z \<in> covered spans"
    then obtain p where p: "p \<in> set spans" "z \<in> span_range p"
      unfolding covered_iff by (rule bexE)
    then have wf: "fst p \<le> snd p" "fst p \<le> z" "z \<le> snd p"
      by (simp_all add: span_range_def)
    from spans_heldD [OF held p(1) wf(1)]
    obtain r where r: "r \<in> set (h # t)" "starts_in r p" "snd p \<le> snd r"
      by blast
    have zr: "z \<in> span_range r"
      using r(2) r(3) wf by (simp add: starts_in_def span_range_def)
    have "r \<noteq> (1, 1)"
    proof
      assume "r = (1, 1)"
      then have "fst p = 1" "snd p = 1"
        using r(2) r(3) wf(1) by (simp_all add: starts_in_def)
      then have "p = (1, 1)"
        by (simp add: prod_eq_iff)
      then show False
        using p(1) assms(3) by simp
    qed
    then have "r \<in> set ?covs"
      using r(1) by auto
    then show "z \<in> covered ?covs"
      using zr unfolding covered_iff by (rule bexI [rotated])
  qed
  then show ?thesis
    using g by blast
qed

text \<open>
  With a start below 1 the seed \<open>(1, 1)\<close> is no longer the first region in start
  order: a span that starts at 1 can then overlap the seed and an earlier region, and
  \<open>int(...)\<close> raises.
\<close>

lemma get_coverages_two_regions_overlap:
  "get_coverages [0, 1] [5, 3] = Inl TypeError"
  by (simp add: get_coverages_def cov_step_def overlapping_def where_true_def upt_rec)

section \<open>Results\<close>

text \<open>
  In the results \<open>by_e_val\<close> and \<open>by_start\<close> are any sorts by \<open>e_val\<close> and by \<open>start\<close>.
\<close>

text \<open>
  C1: with more than one hit, each with \<open>alignment_length\<close> below \<open>query_length\<close>,
  and more than one merged region, the result has one record for each region, in the
  order of the regions; the record of a region is tagged \<open>chimera\<close> and is a hit that
  lies within the region and that no hit within the region ranks strictly before.
\<close>

theorem chimera_one_per_region:
  assumes "sorts_by e_val by_e_val" and "sorts_by start by_start"
    and "1 < length df"
    and "\<forall>h\<in>set df. alignment_length h < query_length h"
    and "coverages_of by_e_val by_start df = Inr covs"
    and "1 < length covs"
  shows "\<exists>out. returned (assign_tax by_e_val by_start df) = Inr out \<and>
     length out = length covs \<and>
     (\<forall>k<length covs. \<exists>h. out ! k = set_origin ''chimera'' h \<and> h \<in> set df \<and>
         inside (covs ! k) h \<and>
         (\<forall>h'\<in>set df. inside (covs ! k) h' \<longrightarrow> ranks_before h h'))"
proof -
  let ?pick = "\<lambda>cov. first_best (filter (inside cov) (by_e_val df))"
  let ?out = "map (\<lambda>cov. set_origin ''chimera'' (?pick cov)) covs"
  have out: "returned (assign_tax by_e_val by_start df) = Inr ?out"
    using assign_tax_region_result [OF assms(1) assms(2) _ assms(4) assms(5)] assms(3) assms(6)
    by simp
  have "\<exists>h. ?out ! k = set_origin ''chimera'' h \<and> h \<in> set df \<and> inside (covs ! k) h \<and>
         (\<forall>h'\<in>set df. inside (covs ! k) h' \<longrightarrow> ranks_before h h')"
    if k: "k < length covs" for k
  proof -
    have "filter (inside (covs ! k)) (by_e_val df) \<noteq> []"
      using coverages_of_nonempty_region [OF assms(1) assms(2) assms(5)] k by simp
    from first_best_props [OF this]
    have "?pick (covs ! k) \<in> set df \<and> inside (covs ! k) (?pick (covs ! k)) \<and>
        (\<forall>h'\<in>set df. inside (covs ! k) h' \<longrightarrow> ranks_before (?pick (covs ! k)) h')"
      using assms(1) by simp
    then show ?thesis
      using k by auto
  qed
  then show ?thesis
    using out by (intro exI [of _ ?out]) simp
qed

theorem chimera_one_per_region_witness:
  "\<exists>out. returned (assign_tax (sort_key e_val) (sort_key start)
             [mk_hit ''k1_1'' ''GCF_001'' 0 500 200 1 199,
              mk_hit ''k1_1'' ''GCF_002'' 0 500 200 3 201,
              mk_hit ''k1_1'' ''GCF_003'' 0 500 200 301 500,
              mk_hit ''k1_1'' ''GCF_004'' (5 / 100) 500 250 251 500]) = Inr out \<and>
         length out = 2"
proof -
  let ?df = "[mk_hit ''k1_1'' ''GCF_001'' 0 500 200 1 199,
              mk_hit ''k1_1'' ''GCF_002'' 0 500 200 3 201,
              mk_hit ''k1_1'' ''GCF_003'' 0 500 200 301 500,
              mk_hit ''k1_1'' ''GCF_004'' (5 / 100) 500 250 251 500]"
  have 1: "1 < length ?df" by simp
  have 2: "\<forall>h\<in>set ?df. alignment_length h < query_length h"
    by (simp add: mk_hit_def)
  have 3: "coverages_of (sort_key e_val) (sort_key start) ?df = Inr [(1, 201), (251, 500)]"
    by (simp add: coverages_of_def mk_hit_def get_coverages_def cov_step_def overlapping_def
        where_true_def upt_rec)
  have 4: "1 < length [(1 :: int, 201 :: int), (251, 500)]" by simp
  show ?thesis
    using chimera_one_per_region [OF sorts_by_sort_key sorts_by_sort_key 1 2 3 4] by auto
qed

text \<open>
  C2: with more than one hit, if some hit has \<open>alignment_length\<close> equal to
  \<open>query_length\<close>, the result is one record, tagged \<open>single\<close>: the first such hit of
  the table as the sort by ascending \<open>e_val\<close> returned it, which is a hit of the input
  with the lowest \<open>e_val\<close> of the full-length hits. For the two full-length hits of
  \<open>test_various_full_hits\<close>, with e-values 1.16e-28 and 0, it is the hit with e-value 0.
\<close>

theorem full_length_first:
  assumes "sorts_by e_val by_e_val"
  shows "(1 < length df \<and> (\<exists>h\<in>set df. alignment_length h = query_length h) \<longrightarrow>
      (\<exists>h. returned (assign_tax by_e_val by_start df) = Inr [set_origin ''single'' h] \<and>
           h = hd (filter (\<lambda>h. alignment_length h = query_length h) (by_e_val df)) \<and>
           h \<in> set df \<and> alignment_length h = query_length h \<and>
           (\<forall>h'\<in>set df. alignment_length h' = query_length h' \<longrightarrow> e_val h \<le> e_val h'))) \<and>
   returned (assign_tax by_e_val by_start
               [mk_hit ''k1_1'' ''GCF_001'' (116 / 10 ^ 30) 535 535 1 535,
                mk_hit ''k1_1'' ''GCF_002'' 0 535 535 1 535])
     = Inr [set_origin ''single'' (mk_hit ''k1_1'' ''GCF_002'' 0 535 535 1 535)]"
proof (intro conjI impI)
  assume a: "1 < length df \<and> (\<exists>h\<in>set df. alignment_length h = query_length h)"
  let ?P = "\<lambda>h. query_length h = alignment_length h"
  let ?h = "hd (filter ?P (by_e_val df))"
  have ex: "\<exists>h\<in>set (by_e_val df). ?P h"
    using a assms by (auto simp add: eq_commute)
  then have "find ?P (by_e_val df) = Some ?h"
    by (rule find_hd_filter)
  then have r: "returned (assign_tax by_e_val by_start df) = Inr [set_origin ''single'' ?h]"
    using a by (simp add: assign_tax_def)
  have eq: "filter ?P (by_e_val df)
      = filter (\<lambda>h. alignment_length h = query_length h) (by_e_val df)"
    by (rule filter_cong) auto
  have "?h \<in> set (by_e_val df) \<and> ?P ?h \<and>
      (\<forall>y\<in>set (by_e_val df). ?P y \<longrightarrow> e_val ?h \<le> e_val y)"
    using sorts_by_sorted [OF assms] ex by (rule sorted_hd_filter_least)
  then have "?h \<in> set df \<and> alignment_length ?h = query_length ?h \<and>
      (\<forall>h'\<in>set df. alignment_length h' = query_length h' \<longrightarrow> e_val ?h \<le> e_val h')"
    using assms by simp
  then show "\<exists>h. returned (assign_tax by_e_val by_start df) = Inr [set_origin ''single'' h] \<and>
           h = hd (filter (\<lambda>h. alignment_length h = query_length h) (by_e_val df)) \<and>
           h \<in> set df \<and> alignment_length h = query_length h \<and>
           (\<forall>h'\<in>set df. alignment_length h' = query_length h' \<longrightarrow> e_val h \<le> e_val h')"
    using r eq by (intro exI [of _ ?h]) simp
next
  let ?df = "[mk_hit ''k1_1'' ''GCF_001'' (116 / 10 ^ 30) 535 535 1 535,
              mk_hit ''k1_1'' ''GCF_002'' 0 535 535 1 535]"
  have "distinct (map e_val ?df)"
    by (simp add: mk_hit_def)
  then have "by_e_val ?df = sort_key e_val ?df"
    using assms by (rule sorts_by_distinct_keys [rotated])
  then have "by_e_val ?df = [mk_hit ''k1_1'' ''GCF_002'' 0 535 535 1 535,
                            mk_hit ''k1_1'' ''GCF_001'' (116 / 10 ^ 30) 535 535 1 535]"
    by (simp add: mk_hit_def)
  then show "returned (assign_tax by_e_val by_start ?df)
     = Inr [set_origin ''single'' (mk_hit ''k1_1'' ''GCF_002'' 0 535 535 1 535)]"
    by (simp add: assign_tax_def mk_hit_def)
qed

theorem full_length_first_witness:
  "returned (assign_tax (sort_key e_val) (sort_key start)
               [mk_hit ''k1_1'' ''GCF_001'' (116 / 10 ^ 30) 535 535 1 535,
                mk_hit ''k1_1'' ''GCF_002'' 0 535 535 1 535])
     = Inr [set_origin ''single'' (mk_hit ''k1_1'' ''GCF_002'' 0 535 535 1 535)] \<and>
   (\<exists>h. returned (assign_tax (sort_key e_val) (sort_key start)
               [mk_hit ''k1_1'' ''GCF_001'' 0 535 535 1 535,
                mk_hit ''k1_1'' ''GCF_002'' (5 / 100) 535 535 1 535])
           = Inr [set_origin ''single'' h] \<and> e_val h = 0)"
proof -
  let ?df = "[mk_hit ''k1_1'' ''GCF_001'' 0 535 535 1 535,
              mk_hit ''k1_1'' ''GCF_002'' (5 / 100) 535 535 1 535]"
  note t = full_length_first [OF sorts_by_sort_key, of ?df "sort_key start"]
  have "1 < length ?df \<and> (\<exists>h\<in>set ?df. alignment_length h = query_length h)"
    by (simp add: mk_hit_def)
  with t obtain h where h: "returned (assign_tax (sort_key e_val) (sort_key start) ?df)
        = Inr [set_origin ''single'' h]"
      "\<forall>h'\<in>set ?df. alignment_length h' = query_length h' \<longrightarrow> e_val h \<le> e_val h'"
      "h \<in> set ?df"
    by blast
  from h(2) h(3) have "e_val h = 0"
    by (auto simp add: mk_hit_def)
  with h(1) t show ?thesis
    by blast
qed

text \<open>
  C3: with more than one hit, none of them with \<open>alignment_length\<close> equal to
  \<open>query_length\<close>, if some hit has \<open>alignment_length\<close> greater than \<open>query_length\<close>, the
  result is one record, tagged \<open>single\<close>: the first such hit of the table as the sort by
  ascending \<open>e_val\<close> returned it, which is a hit of the input with the lowest \<open>e_val\<close> of
  the over-length hits.
\<close>

theorem over_length_first:
  assumes "sorts_by e_val by_e_val"
    and "1 < length df"
    and "\<forall>h\<in>set df. alignment_length h \<noteq> query_length h"
    and "\<exists>h\<in>set df. query_length h < alignment_length h"
  shows "\<exists>h. returned (assign_tax by_e_val by_start df) = Inr [set_origin ''single'' h] \<and>
      h = hd (filter (\<lambda>h. query_length h < alignment_length h) (by_e_val df)) \<and>
      h \<in> set df \<and> query_length h < alignment_length h \<and>
      (\<forall>h'\<in>set df. query_length h' < alignment_length h' \<longrightarrow> e_val h \<le> e_val h')"
proof -
  let ?P = "\<lambda>h. query_length h < alignment_length h"
  let ?h = "hd (filter ?P (by_e_val df))"
  have "find (\<lambda>h. query_length h = alignment_length h) (by_e_val df) = None"
    using assms(1) assms(3) by (intro find_none_filter) auto
  moreover have ex: "\<exists>h\<in>set (by_e_val df). ?P h"
    using assms(1) assms(4) by simp
  then have "find ?P (by_e_val df) = Some ?h"
    by (rule find_hd_filter)
  ultimately have r: "returned (assign_tax by_e_val by_start df)
      = Inr [set_origin ''single'' ?h]"
    using assms(2) by (simp add: assign_tax_def)
  have "?h \<in> set (by_e_val df) \<and> ?P ?h \<and>
      (\<forall>y\<in>set (by_e_val df). ?P y \<longrightarrow> e_val ?h \<le> e_val y)"
    using sorts_by_sorted [OF assms(1)] ex by (rule sorted_hd_filter_least)
  then have "?h \<in> set df \<and> ?P ?h \<and> (\<forall>h'\<in>set df. ?P h' \<longrightarrow> e_val ?h \<le> e_val h')"
    using assms(1) by simp
  then show ?thesis
    using r by (intro exI [of _ ?h]) simp
qed

theorem over_length_first_witness:
  "returned (assign_tax (sort_key e_val) (sort_key start)
               [mk_hit ''k1_1'' ''GCF_001'' 0 570 417 1 416,
                mk_hit ''k1_1'' ''GCF_002'' 0 570 571 1 570])
     = Inr [set_origin ''single'' (mk_hit ''k1_1'' ''GCF_002'' 0 570 571 1 570)]"
proof -
  let ?df = "[mk_hit ''k1_1'' ''GCF_001'' 0 570 417 1 416,
              mk_hit ''k1_1'' ''GCF_002'' 0 570 571 1 570]"
  have 1: "1 < length ?df" by simp
  have 2: "\<forall>h\<in>set ?df. alignment_length h \<noteq> query_length h"
    by (simp add: mk_hit_def)
  have 3: "\<exists>h\<in>set ?df. query_length h < alignment_length h"
    by (simp add: mk_hit_def)
  from over_length_first [OF sorts_by_sort_key 1 2 3, of "sort_key start"]
  obtain h where h: "returned (assign_tax (sort_key e_val) (sort_key start) ?df)
        = Inr [set_origin ''single'' h]"
      "h \<in> set ?df" "query_length h < alignment_length h"
    by blast
  from h(2) h(3) have "h = mk_hit ''k1_1'' ''GCF_002'' 0 570 571 1 570"
    by (auto simp add: mk_hit_def)
  with h(1) show ?thesis by simp
qed

text \<open>
  C4: with more than one hit, each with \<open>alignment_length\<close> below \<open>query_length\<close>,
  and one merged region, the result is one record, tagged \<open>single\<close>: a hit of the
  table that no hit ranks strictly before, by ascending \<open>e_val\<close> and then descending
  \<open>alignment_length\<close>.
\<close>

theorem single_region_best:
  assumes "sorts_by e_val by_e_val"
    and "1 < length df"
    and "\<forall>h\<in>set df. alignment_length h < query_length h"
    and "coverages_of by_e_val by_start df = Inr [cov]"
  shows "\<exists>h. returned (assign_tax by_e_val by_start df) = Inr [set_origin ''single'' h] \<and>
             h \<in> set df \<and> (\<forall>h'\<in>set df. ranks_before h h')"
proof -
  have ne: "by_e_val df \<noteq> []"
    using assms(1) assms(2) by (metis sorts_by_length list.size(3) not_less_zero)
  obtain m where m: "take 1 (sort_key rank (by_e_val df)) = [m]"
      "m \<in> set (by_e_val df)" "\<forall>x\<in>set (by_e_val df). rank m \<le> rank x"
    using take1_sort_key_min [OF ne, of rank] by blast
  have "returned (assign_tax by_e_val by_start df) = Inr [set_origin ''single'' m]"
    using assign_tax_region_analysis [OF assms(1) _ assms(3) assms(4)] assms(2) m(1) by simp
  moreover have "m \<in> set df"
    using m(2) assms(1) by simp
  moreover have "\<forall>h'\<in>set df. ranks_before m h'"
    using m(3) assms(1) by (simp add: rank_le_iff)
  ultimately show ?thesis
    by blast
qed

theorem single_region_best_witness:
  "returned (assign_tax (sort_key e_val) (sort_key start)
               [mk_hit ''k1_1'' ''GCF_001'' 0 570 417 1 416,
                mk_hit ''k1_1'' ''GCF_002'' 0 570 405 1 404,
                mk_hit ''k1_1'' ''GCF_003'' (5 / 100) 570 500 1 499])
     = Inr [set_origin ''single'' (mk_hit ''k1_1'' ''GCF_001'' 0 570 417 1 416)]"
proof -
  let ?df = "[mk_hit ''k1_1'' ''GCF_001'' 0 570 417 1 416,
              mk_hit ''k1_1'' ''GCF_002'' 0 570 405 1 404,
              mk_hit ''k1_1'' ''GCF_003'' (5 / 100) 570 500 1 499]"
  have 1: "1 < length ?df" by simp
  have 2: "\<forall>h\<in>set ?df. alignment_length h < query_length h"
    by (simp add: mk_hit_def)
  have 3: "coverages_of (sort_key e_val) (sort_key start) ?df = Inr [(1, 499)]"
    by (simp add: coverages_of_def mk_hit_def get_coverages_def cov_step_def overlapping_def
        where_true_def upt_rec)
  obtain h where h: "returned (assign_tax (sort_key e_val) (sort_key start) ?df)
        = Inr [set_origin ''single'' h]"
      "h \<in> set ?df" "\<forall>h'\<in>set ?df. ranks_before h h'"
    using single_region_best [OF sorts_by_sort_key 1 2 3] by blast
  from h(2) h(3) have "h = mk_hit ''k1_1'' ''GCF_001'' 0 570 417 1 416"
    by (auto simp add: ranks_before_def mk_hit_def)
  with h(1) show ?thesis by simp
qed

text \<open>
  C5, as stated for every start-sorted list of spans, fails when a start lies below 1:
  for the spans \<open>(0, 0)\<close>, \<open>(1, 5)\<close> the second span merges into the seed at position
  0, the returned regions are \<open>(1, 5)\<close>, \<open>(0, 0)\<close>, and their origins are the second
  and the first span: no strictly increasing origin positions exist.
\<close>

theorem get_coverages_order_counterexample:
  "sorted (map fst [(0 :: int, 0 :: int), (1, 5)]) \<and>
   get_coverages (map fst [(0, 0), (1, 5)]) (map snd [(0, 0), (1, 5)]) = Inr [(1, 5), (0, 0)] \<and>
   \<not> (\<exists>os. list_all2 (is_origin [(0, 0), (1, 5)]) [(1, 5), (0, 0)] os \<and> sorted_wrt (<) os)"
proof (intro conjI notI)
  show "sorted (map fst [(0 :: int, 0 :: int), (1, 5)])"
    by simp
  show "get_coverages (map fst [(0, 0), (1, 5)]) (map snd [(0, 0), (1, 5)])
      = Inr [(1, 5), (0, 0)]"
    by (simp add: get_coverages_def cov_step_def overlapping_def where_true_def upt_rec)
next
  assume "\<exists>os. list_all2 (is_origin [(0, 0), (1, 5)]) [(1, 5), (0, 0)] os \<and> sorted_wrt (<) os"
  then obtain a b where ab: "is_origin [(0, 0), (1, 5)] (1, 5) a"
      "is_origin [(0, 0), (1, 5)] (0, 0) b" "a < b"
    by (auto simp add: list_all2_Cons1)
  from ab(1) have "a = 1"
    by (cases a) (auto simp add: is_origin_def)
  moreover from ab(2) have "b = 0"
    by (cases b) (auto simp add: is_origin_def)
  ultimately show False
    using ab(3) by simp
qed

text \<open>
  C5, amended: for spans sorted by ascending start, with 1-based starts as in the data
  model, \<open>get_coverages\<close> raises nothing and returns regions that are pairwise
  disjoint, that come in the order of their origin spans (strictly increasing positions
  in the input, the origin being the first span of the region), and each of which
  covers exactly what the input spans starting within it cover. No order between a
  span's start and end is assumed.
\<close>

theorem get_coverages_sorted_spans:
  assumes "sorted (map fst spans)" and "\<forall>p\<in>set spans. 1 \<le> fst p"
  shows "\<exists>covs. get_coverages (map fst spans) (map snd spans) = Inr covs \<and>
     (\<forall>i<length covs. \<forall>j<length covs. i \<noteq> j \<longrightarrow>
         span_range (covs ! i) \<inter> span_range (covs ! j) = {}) \<and>
     (\<exists>os. list_all2 (is_origin spans) covs os \<and> sorted_wrt (<) os) \<and>
     (\<forall>r\<in>set covs. span_range r = covered (filter (starts_in r) spans))"
proof -
  obtain h t where m: "merged spans h t"
      and g: "get_coverages (map fst spans) (map snd spans)
          = Inr (if h = (1, 1) then t else h # t)"
    using get_coverages_merged [OF assms] by blast
  let ?covs = "if h = (1, 1) then t else h # t"
  have sp: "sep (h # t)" and h1: "1 \<le> snd h"
    using m by (simp_all add: merged_def)
  then have "sep ?covs"
    by (simp add: sep_def)
  then have a: "\<forall>i<length ?covs. \<forall>j<length ?covs. i \<noteq> j \<longrightarrow>
         span_range (?covs ! i) \<inter> span_range (?covs ! j) = {}"
    by (intro allI impI sep_disjoint)
  have b: "\<exists>os. list_all2 (is_origin spans) ?covs os \<and> sorted_wrt (<) os"
    using m by (rule merged_origins)
  have "\<forall>r\<in>set t. snd h < fst r"
    using sp by (simp add: sep_def)
  then have "(1, 1) \<notin> set t"
    using h1 by fastforce
  then have "\<forall>r\<in>set ?covs. r \<in> set (h # t) \<and> r \<noteq> (1, 1)"
    by auto
  then have c: "\<forall>r\<in>set ?covs. span_range r = covered (filter (starts_in r) spans)"
    using merged_region_union [OF m] by blast
  show ?thesis
    using g a b c by blast
qed

theorem get_coverages_sorted_spans_witness:
  "get_coverages [2, 3, 10] [5, 6, 12] = Inr [(2, 6), (10, 12)] \<and>
   span_range (2, 6) \<inter> span_range (10, 12) = {} \<and>
   span_range (2, 6) = covered [(2, 5), (3, 6)]"
proof -
  let ?spans = "[(2, 5), (3, 6), (10, 12)] :: (int \<times> int) list"
  have 1: "sorted (map fst ?spans)" by simp
  have 2: "\<forall>p\<in>set ?spans. 1 \<le> fst p" by simp
  have g: "get_coverages (map fst ?spans) (map snd ?spans) = Inr [(2, 6), (10, 12)]"
    by (simp add: get_coverages_def cov_step_def overlapping_def where_true_def upt_rec)
  from get_coverages_sorted_spans [OF 1 2] g
  have a: "\<forall>i<length [(2 :: int, 6 :: int), (10, 12)]. \<forall>j<length [(2 :: int, 6 :: int), (10, 12)].
        i \<noteq> j \<longrightarrow> span_range ([(2, 6), (10, 12)] ! i) \<inter> span_range ([(2, 6), (10, 12)] ! j) = {}"
    and c: "\<forall>r\<in>set [(2 :: int, 6 :: int), (10, 12)].
        span_range r = covered (filter (starts_in r) ?spans)"
    by auto
  from a [rule_format, of 0 1] have "span_range (2, 6) \<inter> span_range (10, 12) = {}"
    by simp
  moreover from c have "span_range (2, 6) = covered [(2, 5), (3, 6)]"
    by (simp add: starts_in_def)
  ultimately show ?thesis
    using g by simp
qed

text \<open>
  C6: a span \<open>(1, 1)\<close> is merged into the seed \<open>(1, 1)\<close> and removed with it. For the
  start-sorted spans \<open>(1, 1)\<close>, \<open>(5, 9)\<close>, \<open>(20, 30)\<close> the regions are \<open>(5, 9)\<close> and
  \<open>(20, 30)\<close>: coordinate 1 is covered by a span and by no region, and the hit at
  \<open>(1, 1)\<close> has no record in the result of \<open>assign_tax\<close>.
\<close>

theorem sentinel_span_dropped:
  assumes "sorts_by e_val by_e_val" and "sorts_by start by_start"
  shows "get_coverages [1, 5, 20] [1, 9, 30] = Inr [(5, 9), (20, 30)] \<and>
   1 \<in> covered (zip [1, 5, 20] [1, 9, 30]) \<and>
   1 \<notin> covered [(5, 9), (20, 30)] \<and>
   returned (assign_tax by_e_val by_start
               [mk_hit ''k1_1'' ''GCF_001'' 0 500 1 1 1,
                mk_hit ''k1_1'' ''GCF_002'' 0 500 5 5 9,
                mk_hit ''k1_1'' ''GCF_003'' 0 500 11 20 30])
     = Inr [set_origin ''chimera'' (mk_hit ''k1_1'' ''GCF_002'' 0 500 5 5 9),
            set_origin ''chimera'' (mk_hit ''k1_1'' ''GCF_003'' 0 500 11 20 30)]"
proof -
  let ?df = "[mk_hit ''k1_1'' ''GCF_001'' 0 500 1 1 1,
              mk_hit ''k1_1'' ''GCF_002'' 0 500 5 5 9,
              mk_hit ''k1_1'' ''GCF_003'' 0 500 11 20 30]"
  let ?pick = "\<lambda>cov. first_best (filter (inside cov) (by_e_val ?df))"
  have g: "get_coverages [1, 5, 20] [1, 9, 30] = Inr [(5, 9), (20, 30)]"
    by (simp add: get_coverages_def cov_step_def overlapping_def where_true_def upt_rec)
  have c: "1 \<in> covered (zip [1, 5, 20] [1, 9, 30])" "1 \<notin> covered [(5, 9), (20, 30)]"
    by (simp_all add: covered_def)
  have "mset (by_start (by_e_val ?df)) = mset ?df"
    using assms by (simp add: sorts_by_def)
  moreover have "sorted (map start (by_start (by_e_val ?df)))"
    using assms(2) by (rule sorts_by_sorted)
  moreover have "distinct (map start ?df)"
    by (simp add: mk_hit_def)
  ultimately have "by_start (by_e_val ?df) = sort_key start ?df"
    by (rule sorted_distinct_keys_unique)
  then have "by_start (by_e_val ?df) = ?df"
    by (simp add: mk_hit_def)
  then have cv: "coverages_of by_e_val by_start ?df = Inr [(5, 9), (20, 30)]"
    using g by (simp add: coverages_of_def mk_hit_def)
  have 1: "length ?df \<noteq> 1" by simp
  have 2: "\<forall>h\<in>set ?df. alignment_length h < query_length h"
    by (simp add: mk_hit_def)
  have r: "returned (assign_tax by_e_val by_start ?df)
      = Inr [set_origin ''chimera'' (?pick (5, 9)), set_origin ''chimera'' (?pick (20, 30))]"
    using assign_tax_region_result [OF assms 1 2 cv] by simp
  have "filter (inside (5, 9)) (by_e_val ?df) \<noteq> []"
    using coverages_of_nonempty_region [OF assms cv] by simp
  from first_best_props [OF this] have "?pick (5, 9) \<in> set ?df \<and> inside (5, 9) (?pick (5, 9))"
    using assms(1) by simp
  then have p1: "?pick (5, 9) = mk_hit ''k1_1'' ''GCF_002'' 0 500 5 5 9"
    by (auto simp add: inside_def mk_hit_def)
  have "filter (inside (20, 30)) (by_e_val ?df) \<noteq> []"
    using coverages_of_nonempty_region [OF assms cv] by simp
  from first_best_props [OF this]
  have "?pick (20, 30) \<in> set ?df \<and> inside (20, 30) (?pick (20, 30))"
    using assms(1) by simp
  then have p2: "?pick (20, 30) = mk_hit ''k1_1'' ''GCF_003'' 0 500 11 20 30"
    by (auto simp add: inside_def mk_hit_def)
  show ?thesis
    using g c r p1 p2 by simp
qed

theorem sentinel_span_dropped_witness:
  "get_coverages [1, 5, 20] [1, 9, 30] = Inr [(5, 9), (20, 30)] \<and>
   1 \<in> covered (zip [1, 5, 20] [1, 9, 30]) \<and>
   1 \<notin> covered [(5, 9), (20, 30)] \<and>
   returned (assign_tax (sort_key e_val) (sort_key start)
               [mk_hit ''k1_1'' ''GCF_001'' 0 500 1 1 1,
                mk_hit ''k1_1'' ''GCF_002'' 0 500 5 5 9,
                mk_hit ''k1_1'' ''GCF_003'' 0 500 11 20 30])
     = Inr [set_origin ''chimera'' (mk_hit ''k1_1'' ''GCF_002'' 0 500 5 5 9),
            set_origin ''chimera'' (mk_hit ''k1_1'' ''GCF_003'' 0 500 11 20 30)]"
  using sentinel_span_dropped [OF sorts_by_sort_key sorts_by_sort_key] .




text \<open>
  C8: \<open>get_coverages\<close> on the three inputs of \<open>test_get_coverages\<close>: overlapping spans
  merge, spans that touch at one coordinate merge, spans after a gap stay apart.
\<close>

theorem get_coverages_examples:
  "get_coverages [2, 3] [5, 6] = Inr [(2, 6)] \<and>
   get_coverages [2, 10] [10, 20] = Inr [(2, 20)] \<and>
   get_coverages [1, 20] [10, 30] = Inr [(1, 10), (20, 30)]"
  by (simp add: get_coverages_def cov_step_def overlapping_def where_true_def upt_rec)

theorem get_coverages_examples_witness:
  "get_coverages [2, 10] [10, 20] = Inr [(2, 20)]"
  using get_coverages_examples by simp

text \<open>
  C9: on a table of one hit \<open>assign_tax\<close> writes the column \<open>origin\<close> into the
  caller's table: after the call the caller's row carries \<open>single\<close>.
\<close>

theorem single_hit_mutates_input:
  "caller_df (assign_tax by_e_val by_start [mk_hit ''k1_1'' ''GCF_001'' 0 535 535 1 535])
     = [set_origin ''single'' (mk_hit ''k1_1'' ''GCF_001'' 0 535 535 1 535)] \<and>
   caller_df (assign_tax by_e_val by_start [mk_hit ''k1_1'' ''GCF_001'' 0 535 535 1 535])
     \<noteq> [mk_hit ''k1_1'' ''GCF_001'' 0 535 535 1 535]"
  by (simp add: assign_tax_def mk_hit_def set_origin_def)

text \<open>
  C10: on a table without rows \<open>assign_tax\<close> raises nothing and returns a table
  without rows.
\<close>

theorem assign_tax_empty:
  assumes "sorts_by e_val by_e_val" and "sorts_by start by_start"
  shows "returned (assign_tax by_e_val by_start []) = Inr []"
  using assms by (simp add: assign_tax_def get_coverages_def)

theorem assign_tax_empty_witness:
  "returned (assign_tax (sort_key e_val) (sort_key start) []) = Inr []"
  using assign_tax_empty [OF sorts_by_sort_key sorts_by_sort_key] .

end
